theory Spec2Isabelle
  imports Main
begin

section \<open>Characters and strings\<close>

text \<open>
  A JavaScript string is a sequence of 16-bit code units. The model keeps the code units
  below 256 (ASCII and Latin-1), which is what \<^typ>\<open>char\<close> holds; a document, a tag
  or a delimiter is a \<^typ>\<open>string\<close>.
\<close>

definition code_unit :: "char \<Rightarrow> nat" where
  "code_unit c = of_char c"

text \<open>\<^verbatim>\<open>String.prototype.toLowerCase\<close>, one code unit at a time: A-Z and the Latin-1
  capitals (all of 0xC0-0xDE but the multiplication sign 0xD7) move up by 32.\<close>

definition lower_char :: "char \<Rightarrow> char" where
  "lower_char c =
     (let n = code_unit c in
      if (65 \<le> n \<and> n \<le> 90) \<or> (192 \<le> n \<and> n \<le> 222 \<and> n \<noteq> 215)
      then char_of (n + 32) else c)"

definition toLowerCase :: "string \<Rightarrow> string" where
  "toLowerCase s = map lower_char s"

text \<open>The regular expression engine's \<^verbatim>\<open>Canonicalize\<close> under the \<^verbatim>\<open>i\<close> flag (no
  \<^verbatim>\<open>u\<close> flag): the upper-case form when that is a single code unit. Among the code
  units below 256 these are a-z and 0xE0-0xFE but the division sign 0xF7; the upper-case
  forms of 0xB5, 0xDF and 0xFF lie outside and equal no other character's.\<close>

definition upper_char :: "char \<Rightarrow> char" where
  "upper_char c =
     (let n = code_unit c in
      if (97 \<le> n \<and> n \<le> 122) \<or> (224 \<le> n \<and> n \<le> 254 \<and> n \<noteq> 247)
      then char_of (n - 32) else c)"

definition canonicalize :: "bool \<Rightarrow> char \<Rightarrow> char" where
  "canonicalize ignoreCase c = (if ignoreCase then upper_char c else c)"

definition is_line_terminator :: "char \<Rightarrow> bool" where
  "is_line_terminator c = (code_unit c = 10 \<or> code_unit c = 13)"

definition is_white_space :: "char \<Rightarrow> bool" where
  "is_white_space c =
     (let n = code_unit c in (9 \<le> n \<and> n \<le> 13) \<or> n = 32 \<or> n = 160)"

definition is_digit :: "char \<Rightarrow> bool" where
  "is_digit c = (let n = code_unit c in 48 \<le> n \<and> n \<le> 57)"

definition is_word_char :: "char \<Rightarrow> bool" where
  "is_word_char c =
     (let n = code_unit c in
      (48 \<le> n \<and> n \<le> 57) \<or> (65 \<le> n \<and> n \<le> 90) \<or> (97 \<le> n \<and> n \<le> 122) \<or> n = 95)"

definition is_alnum :: "char \<Rightarrow> bool" where
  "is_alnum c =
     (let n = code_unit c in
      (48 \<le> n \<and> n \<le> 57) \<or> (65 \<le> n \<and> n \<le> 90) \<or> (97 \<le> n \<and> n \<le> 122))"

text \<open>\<^verbatim>\<open>Array.prototype.join\<close> on strings.\<close>

fun join :: "string \<Rightarrow> string list \<Rightarrow> string" where
  "join sep [] = []"
| "join sep [s] = s"
| "join sep (s # t # ts) = s @ sep @ join sep (t # ts)"

text \<open>\<^verbatim>\<open>String.prototype.indexOf\<close>: the first position at which the needle occurs.\<close>

fun indexOf :: "string \<Rightarrow> string \<Rightarrow> nat option" where
  "indexOf [] needle = (if needle = [] then Some 0 else None)"
| "indexOf (c # cs) needle =
     (if take (length needle) (c # cs) = needle then Some 0
      else map_option Suc (indexOf cs needle))"

section \<open>Regular expressions: the patterns the program builds\<close>

text \<open>
  The program assembles the source text of its patterns from escaped delimiters and
  tags and hands it to \<^verbatim>\<open>new RegExp(source, flags)\<close>. The model follows the same
  route: a pattern source is read into tokens, the tokens into a syntax tree, and the
  tree is run by a backtracking matcher that follows the matcher the language standard
  defines (priority of alternatives, greedy and lazy repetition, captures of a group
  cleared on every round of a repetition, a round that matches nothing refused).
  The fragment covers everything the program writes: characters, identity escapes,
  \<^verbatim>\<open>\s \S \w \W \d \D \t \n \r \v \f\<close>, classes without ranges, \<^verbatim>\<open>. ^ $\<close>, capturing
  groups, alternation and the quantifiers \<^verbatim>\<open>* + ?\<close> with their lazy forms. A source
  outside the fragment, like one the engine rejects, has no tree.
\<close>

datatype class_item =
  CI_char char | CI_space | CI_nonspace | CI_word | CI_nonword | CI_digit | CI_nondigit

datatype regex =
  Empty
| Chr char
| Dot
| Cls bool "class_item list"
| Bol
| Eol
| Seq regex regex
| Alt regex regex
| Group nat regex
| Star bool regex
| Plus bool regex
| Opt bool regex

datatype token =
  TChar char | TDot | TCaret | TDollar | TLParen | TRParen | TBar
| TStar bool | TPlus bool | TQuest bool | TClass bool "class_item list"

text \<open>What a backslash and the character after it stand for, outside a class.\<close>

definition escape_token :: "char \<Rightarrow> token option" where
  "escape_token c =
     (if c = CHR ''s'' then Some (TClass False [CI_space])
      else if c = CHR ''S'' then Some (TClass False [CI_nonspace])
      else if c = CHR ''w'' then Some (TClass False [CI_word])
      else if c = CHR ''W'' then Some (TClass False [CI_nonword])
      else if c = CHR ''d'' then Some (TClass False [CI_digit])
      else if c = CHR ''D'' then Some (TClass False [CI_nondigit])
      else if c = CHR ''t'' then Some (TChar (char_of (9::nat)))
      else if c = CHR ''n'' then Some (TChar (char_of (10::nat)))
      else if c = CHR ''v'' then Some (TChar (char_of (11::nat)))
      else if c = CHR ''f'' then Some (TChar (char_of (12::nat)))
      else if c = CHR ''r'' then Some (TChar (char_of (13::nat)))
      else if is_alnum c then None
      else Some (TChar c))"

text \<open>The same inside a class.\<close>

definition escape_item :: "char \<Rightarrow> class_item option" where
  "escape_item c =
     (if c = CHR ''s'' then Some CI_space
      else if c = CHR ''S'' then Some CI_nonspace
      else if c = CHR ''w'' then Some CI_word
      else if c = CHR ''W'' then Some CI_nonword
      else if c = CHR ''d'' then Some CI_digit
      else if c = CHR ''D'' then Some CI_nondigit
      else if c = CHR ''t'' then Some (CI_char (char_of (9::nat)))
      else if c = CHR ''n'' then Some (CI_char (char_of (10::nat)))
      else if c = CHR ''v'' then Some (CI_char (char_of (11::nat)))
      else if c = CHR ''f'' then Some (CI_char (char_of (12::nat)))
      else if c = CHR ''r'' then Some (CI_char (char_of (13::nat)))
      else if is_alnum c then None
      else Some (CI_char c))"

text \<open>The items of a class up to its closing bracket, and the source after it. A dash
  (a range) is outside the fragment.\<close>

fun class_items :: "string \<Rightarrow> (class_item list \<times> string) option" where
  "class_items [] = None"
| "class_items (c # cs) =
     (if c = CHR '']'' then Some ([], cs)
      else if c = CHR ''-'' then None
      else if c = CHR 0x5C then
        (case cs of
           [] \<Rightarrow> None
         | e # es \<Rightarrow>
             (case escape_item e of
                None \<Rightarrow> None
              | Some it \<Rightarrow>
                  (case class_items es of
                     None \<Rightarrow> None
                   | Some (its, r) \<Rightarrow> Some (it # its, r))))
      else
        (case class_items cs of
           None \<Rightarrow> None
         | Some (its, r) \<Rightarrow> Some (CI_char c # its, r)))"

lemma class_items_shorter:
  "class_items s = Some (its, r) \<Longrightarrow> length r < length s"
proof (induction s arbitrary: its r rule: class_items.induct)
  case 1
  then show ?case by simp
next
  case (2 c cs)
  show ?case
  proof (cases "c = CHR '']''")
    case True
    with "2.prems" show ?thesis by simp
  next
    case nclose: False
    show ?thesis
    proof (cases "c = CHR 0x5C")
      case True
      with nclose "2.prems" obtain e es it its' where
        cs: "cs = e # es" and "escape_item e = Some it"
        and rec: "class_items es = Some (its', r)"
        by (auto split: if_splits list.splits option.splits)
      from "2.IH"(1) nclose True cs rec \<open>escape_item e = Some it\<close> "2.prems"
      have "length r < length es"
        by (auto split: if_splits)
      with cs show ?thesis by simp
    next
      case False
      with nclose "2.prems" obtain its' where rec: "class_items cs = Some (its', r)"
        by (auto split: if_splits option.splits)
      from "2.IH"(2) nclose False rec "2.prems" have "length r < length cs"
        by (auto split: if_splits)
      then show ?thesis by simp
    qed
  qed
qed

text \<open>The tokens of a pattern source. A lone closing bracket or brace is an ordinary
  character (the web-compatibility grammar); an opening brace (a counted repetition)
  and a group that starts with a question mark are outside the fragment.\<close>

function tokenise :: "string \<Rightarrow> token list option" where
  "tokenise [] = Some []"
| "tokenise (c # cs) =
     (if c = CHR 0x5C then
        (case cs of
           [] \<Rightarrow> None
         | e # es \<Rightarrow>
             (case escape_token e of
                None \<Rightarrow> None
              | Some t \<Rightarrow> map_option (Cons t) (tokenise es)))
      else if c = CHR ''['' then
        (case cs of
           [] \<Rightarrow> None
         | e # es \<Rightarrow>
             (case class_items (if e = CHR ''^'' then es else cs) of
                None \<Rightarrow> None
              | Some (its, r) \<Rightarrow> map_option (Cons (TClass (e = CHR ''^'') its)) (tokenise r)))
      else if c = CHR ''('' then
        (case cs of
           [] \<Rightarrow> map_option (Cons TLParen) (tokenise cs)
         | e # es \<Rightarrow> if e = CHR ''?'' then None else map_option (Cons TLParen) (tokenise cs))
      else if c = CHR ''*'' \<or> c = CHR ''+'' \<or> c = CHR ''?'' then
        (let q = (\<lambda>g. if c = CHR ''*'' then TStar g else if c = CHR ''+'' then TPlus g else TQuest g)
         in case cs of
              [] \<Rightarrow> map_option (Cons (q True)) (tokenise cs)
            | e # es \<Rightarrow>
                if e = CHR ''?'' then map_option (Cons (q False)) (tokenise es)
                else map_option (Cons (q True)) (tokenise cs))
      else if c = CHR ''{'' then None
      else if c = CHR '')'' then map_option (Cons TRParen) (tokenise cs)
      else if c = CHR ''|'' then map_option (Cons TBar) (tokenise cs)
      else if c = CHR ''.'' then map_option (Cons TDot) (tokenise cs)
      else if c = CHR ''^'' then map_option (Cons TCaret) (tokenise cs)
      else if c = CHR ''$'' then map_option (Cons TDollar) (tokenise cs)
      else map_option (Cons (TChar c)) (tokenise cs))"
  by pat_completeness auto
termination
proof (relation "measure length")
  fix c cs e es x2 its r
  assume "cs = e # es" "class_items (if e = CHR ''^'' then es else cs) = Some x2" "(its, r) = x2"
  then have "length r < length cs"
    using class_items_shorter [of "if e = CHR ''^'' then es else cs" its r]
    by (auto split: if_splits)
  then show "(r, c # cs) \<in> measure length" by simp
qed auto

text \<open>
  The syntax tree of a token list. The reader keeps a stack of open groups; a frame holds
  the finished alternatives of its disjunction and the terms of the alternative being
  read (both latest first) and the number of the group it is the body of (0 for the
  pattern itself). Groups are numbered by their opening parenthesis, from 1.
\<close>

datatype frame = Frame "regex list" "regex list" nat

definition seqs :: "regex list \<Rightarrow> regex" where
  "seqs rs = foldr Seq rs Empty"

fun alts :: "regex list \<Rightarrow> regex" where
  "alts [] = Empty"
| "alts [r] = r"
| "alts (r # q # rs) = Alt r (alts (q # rs))"

fun close_frame :: "frame \<Rightarrow> regex" where
  "close_frame (Frame as ts g) = alts (rev (seqs (rev ts) # as))"

fun push_term :: "regex \<Rightarrow> frame list \<times> nat \<Rightarrow> (frame list \<times> nat) option" where
  "push_term r ([], n) = None"
| "push_term r (Frame as ts g # fs, n) = Some (Frame as (r # ts) g # fs, n)"

text \<open>A quantifier applies to an atom: a character, a class, the dot or a group; after an
  assertion or another quantifier there is nothing to repeat.\<close>

fun quantifiable :: "regex \<Rightarrow> bool" where
  "quantifiable (Chr c) = True"
| "quantifiable Dot = True"
| "quantifiable (Cls b its) = True"
| "quantifiable (Group n r) = True"
| "quantifiable r = False"

fun quantify :: "(regex \<Rightarrow> regex) \<Rightarrow> frame list \<times> nat \<Rightarrow> (frame list \<times> nat) option" where
  "quantify q (Frame as (t # ts) g # fs, n) =
     (if quantifiable t then Some (Frame as (q t # ts) g # fs, n) else None)"
| "quantify q st = None"

fun parse_token :: "token \<Rightarrow> frame list \<times> nat \<Rightarrow> (frame list \<times> nat) option" where
  "parse_token (TChar c) st = push_term (Chr c) st"
| "parse_token TDot st = push_term Dot st"
| "parse_token (TClass b its) st = push_term (Cls b its) st"
| "parse_token TCaret st = push_term Bol st"
| "parse_token TDollar st = push_term Eol st"
| "parse_token TLParen (fs, n) = Some (Frame [] [] n # fs, Suc n)"
| "parse_token TRParen (fs, n) =
     (case fs of
        f # f' # rest \<Rightarrow>
          (case f of Frame as ts g \<Rightarrow> push_term (Group g (close_frame f)) (f' # rest, n))
      | _ \<Rightarrow> None)"
| "parse_token TBar (fs, n) =
     (case fs of
        Frame as ts g # rest \<Rightarrow> Some (Frame (seqs (rev ts) # as) [] g # rest, n)
      | [] \<Rightarrow> None)"
| "parse_token (TStar greedy) st = quantify (Star greedy) st"
| "parse_token (TPlus greedy) st = quantify (Plus greedy) st"
| "parse_token (TQuest greedy) st = quantify (Opt greedy) st"

fun parse_tokens :: "token list \<Rightarrow> frame list \<times> nat \<Rightarrow> (frame list \<times> nat) option" where
  "parse_tokens [] st = Some st"
| "parse_tokens (t # ts) st =
     (case parse_token t st of None \<Rightarrow> None | Some st' \<Rightarrow> parse_tokens ts st')"

text \<open>The flags of a \<^verbatim>\<open>RegExp\<close>, read from the flag string (\<^verbatim>\<open>"ig"\<close>, \<^verbatim>\<open>"igm"\<close>,
  \<^verbatim>\<open>"gm"\<close>). Every pattern of the program is global.\<close>

record RegExp =
  re_tree :: regex
  re_groups :: nat
  re_ignoreCase :: bool
  re_multiline :: bool

definition RegExp_new :: "string \<Rightarrow> string \<Rightarrow> RegExp option" where
  "RegExp_new source flags =
     (case tokenise source of
        None \<Rightarrow> None
      | Some toks \<Rightarrow>
          (case parse_tokens toks ([Frame [] [] 0], 1) of
             Some ([f], n) \<Rightarrow>
               Some \<lparr>re_tree = close_frame f, re_groups = n - 1,
                     re_ignoreCase = (CHR ''i'' \<in> set flags),
                     re_multiline = (CHR ''m'' \<in> set flags)\<rparr>
           | _ \<Rightarrow> None))"

section \<open>Regular expressions: matching\<close>

text \<open>
  The state of a match: the input that is still to be read, the character just before
  it (none at the start of the input) and the captures so far.
\<close>

record mstate =
  ms_rest :: string
  ms_prev :: "char option"
  ms_caps :: "nat \<Rightarrow> string option"

fun class_item_matches :: "bool \<Rightarrow> class_item \<Rightarrow> char \<Rightarrow> bool" where
  "class_item_matches ic (CI_char a) c = (canonicalize ic a = canonicalize ic c)"
| "class_item_matches ic CI_space c = is_white_space c"
| "class_item_matches ic CI_nonspace c = (\<not> is_white_space c)"
| "class_item_matches ic CI_word c = is_word_char c"
| "class_item_matches ic CI_nonword c = (\<not> is_word_char c)"
| "class_item_matches ic CI_digit c = is_digit c"
| "class_item_matches ic CI_nondigit c = (\<not> is_digit c)"

definition class_matches :: "bool \<Rightarrow> bool \<Rightarrow> class_item list \<Rightarrow> char \<Rightarrow> bool" where
  "class_matches ic invert its c = (list_ex (\<lambda>it. class_item_matches ic it c) its \<noteq> invert)"

text \<open>Reading one character that satisfies a test.\<close>

definition read_char :: "(char \<Rightarrow> bool) \<Rightarrow> mstate \<Rightarrow> (mstate \<Rightarrow> mstate option) \<Rightarrow> mstate option" where
  "read_char p x k =
     (case ms_rest x of
        [] \<Rightarrow> None
      | a # as \<Rightarrow> if p a then k (x\<lparr>ms_rest := as, ms_prev := Some a\<rparr>) else None)"

fun groups_of :: "regex \<Rightarrow> nat list" where
  "groups_of (Seq r q) = groups_of r @ groups_of q"
| "groups_of (Alt r q) = groups_of r @ groups_of q"
| "groups_of (Group n r) = n # groups_of r"
| "groups_of (Star g r) = groups_of r"
| "groups_of (Plus g r) = groups_of r"
| "groups_of (Opt g r) = groups_of r"
| "groups_of r = []"

definition clear_captures :: "regex \<Rightarrow> mstate \<Rightarrow> mstate" where
  "clear_captures r x =
     x\<lparr>ms_caps := (\<lambda>n. if n \<in> set (groups_of r) then None else ms_caps x n)\<rparr>"

text \<open>The text read between two states of one match.\<close>

definition consumed :: "mstate \<Rightarrow> mstate \<Rightarrow> string" where
  "consumed x y = take (length (ms_rest x) - length (ms_rest y)) (ms_rest x)"

fun rsize :: "regex \<Rightarrow> nat" where
  "rsize (Seq r q) = Suc (rsize r + rsize q)"
| "rsize (Alt r q) = Suc (rsize r + rsize q)"
| "rsize (Group n r) = Suc (rsize r)"
| "rsize (Star g r) = Suc (rsize r)"
| "rsize (Plus g r) = Suc (Suc (rsize r))"
| "rsize (Opt g r) = Suc (rsize r)"
| "rsize r = 0"

text \<open>
  The matcher, in continuation-passing style as in the language standard: \<open>k\<close> is what
  remains to be matched after this pattern, and the result is that of the first way of
  matching for which \<open>k\<close> succeeds. A repetition with no minimum left refuses a round
  that read nothing (the standard compares the end positions; a match only moves
  forward, so that is the round that left the rest as long as it was).
\<close>

function matcher :: "bool \<Rightarrow> bool \<Rightarrow> regex \<Rightarrow> mstate \<Rightarrow> (mstate \<Rightarrow> mstate option) \<Rightarrow> mstate option" where
  "matcher ic ml Empty x k = k x"
| "matcher ic ml (Chr c) x k = read_char (\<lambda>a. canonicalize ic a = canonicalize ic c) x k"
| "matcher ic ml Dot x k = read_char (\<lambda>a. \<not> is_line_terminator a) x k"
| "matcher ic ml (Cls invert its) x k = read_char (class_matches ic invert its) x k"
| "matcher ic ml Bol x k =
     (case ms_prev x of
        None \<Rightarrow> k x
      | Some p \<Rightarrow> if ml \<and> is_line_terminator p then k x else None)"
| "matcher ic ml Eol x k =
     (case ms_rest x of
        [] \<Rightarrow> k x
      | a # as \<Rightarrow> if ml \<and> is_line_terminator a then k x else None)"
| "matcher ic ml (Seq r q) x k = matcher ic ml r x (\<lambda>y. matcher ic ml q y k)"
| "matcher ic ml (Alt r q) x k =
     (case matcher ic ml r x k of
        Some z \<Rightarrow> Some z
      | None \<Rightarrow> matcher ic ml q x k)"
| "matcher ic ml (Group n r) x k =
     matcher ic ml r x (\<lambda>y. k (y\<lparr>ms_caps := (ms_caps y)(n \<mapsto> consumed x y)\<rparr>))"
| "matcher ic ml (Star greedy r) x k =
     (if greedy then
        (case matcher ic ml r (clear_captures r x)
                (\<lambda>y. if length (ms_rest y) < length (ms_rest x)
                      then matcher ic ml (Star greedy r) y k else None) of
           Some z \<Rightarrow> Some z
         | None \<Rightarrow> k x)
      else
        (case k x of
           Some z \<Rightarrow> Some z
         | None \<Rightarrow>
             matcher ic ml r (clear_captures r x)
               (\<lambda>y. if length (ms_rest y) < length (ms_rest x)
                     then matcher ic ml (Star greedy r) y k else None)))"
| "matcher ic ml (Plus greedy r) x k =
     matcher ic ml r (clear_captures r x) (\<lambda>y. matcher ic ml (Star greedy r) y k)"
| "matcher ic ml (Opt greedy r) x k =
     (if greedy then
        (case matcher ic ml r (clear_captures r x)
                (\<lambda>y. if length (ms_rest y) < length (ms_rest x) then k y else None) of
           Some z \<Rightarrow> Some z
         | None \<Rightarrow> k x)
      else
        (case k x of
           Some z \<Rightarrow> Some z
         | None \<Rightarrow>
             matcher ic ml r (clear_captures r x)
               (\<lambda>y. if length (ms_rest y) < length (ms_rest x) then k y else None)))"
  by pat_completeness auto
termination
  by (relation "measures [\<lambda>(ic, ml, r, x, k). rsize r, \<lambda>(ic, ml, r, x, k). length (ms_rest x)]")
     auto

section \<open>Regular expressions: \<^verbatim>\<open>exec\<close> and the loop over all matches\<close>

text \<open>What \<^verbatim>\<open>exec\<close> returns: \<^verbatim>\<open>match.index\<close>, \<^verbatim>\<open>match[0]\<close>, and \<^verbatim>\<open>match[1]\<close>,
  \<^verbatim>\<open>match[2]\<close>, ... (none where a group took no part: \<^verbatim>\<open>undefined\<close>).\<close>

record rmatch =
  m_index :: nat
  m_text :: string
  m_caps :: "string option list"

definition capture :: "rmatch \<Rightarrow> nat \<Rightarrow> string option" where
  "capture m n =
     (if n = 0 then Some (m_text m)
      else if n \<le> length (m_caps m) then m_caps m ! (n - 1)
      else None)"

definition start_state :: "string \<Rightarrow> nat \<Rightarrow> mstate" where
  "start_state s i =
     \<lparr>ms_rest = drop i s,
      ms_prev = (if i = 0 \<or> length s < i then None else Some (s ! (i - 1))),
      ms_caps = (\<lambda>n. None)\<rparr>"

text \<open>\<^verbatim>\<open>regEx.exec(s)\<close> of a global pattern whose \<^verbatim>\<open>lastIndex\<close> is \<open>i\<close>: the leftmost
  match that starts at \<open>i\<close> or later. The new \<^verbatim>\<open>lastIndex\<close> is the end of the match (0
  when there is none).\<close>

function exec :: "RegExp \<Rightarrow> string \<Rightarrow> nat \<Rightarrow> rmatch option" where
  "exec re s i =
     (if length s < i then None
      else
        (case matcher (re_ignoreCase re) (re_multiline re) (re_tree re) (start_state s i) Some of
           Some z \<Rightarrow>
             Some \<lparr>m_index = i, m_text = consumed (start_state s i) z,
                   m_caps = map (ms_caps z) [1 ..< Suc (re_groups re)]\<rparr>
         | None \<Rightarrow> exec re s (Suc i)))"
  by pat_completeness auto
termination
  by (relation "measure (\<lambda>(re, s, i). Suc (length s) - i)") auto

declare exec.simps [simp del]

definition m_end :: "rmatch \<Rightarrow> nat" where
  "m_end m = m_index m + length (m_text m)"

lemma consumed_length: "length (consumed x y) \<le> length (ms_rest x)"
  by (simp add: consumed_def)

lemma exec_bounds:
  "exec re s i = Some m \<Longrightarrow> i \<le> m_index m \<and> m_end m \<le> length s"
proof (induction re s i rule: exec.induct)
  case (1 re s i)
  show ?case
  proof (cases "matcher (re_ignoreCase re) (re_multiline re) (re_tree re) (start_state s i) Some")
    case None
    with "1.prems" have le: "\<not> length s < i" and rec: "exec re s (Suc i) = Some m"
      by (auto simp: exec.simps [of re s i] split: if_splits)
    from "1.IH" [OF le None rec] show ?thesis by simp
  next
    case (Some z)
    with "1.prems" have le: "i \<le> length s"
      and m: "m = \<lparr>m_index = i, m_text = consumed (start_state s i) z,
                   m_caps = map (ms_caps z) [1 ..< Suc (re_groups re)]\<rparr>"
      by (auto simp: exec.simps [of re s i] split: if_splits)
    have "length (consumed (start_state s i) z) \<le> length s - i"
      using consumed_length [of "start_state s i" z] by (simp add: start_state_def)
    with le m show ?thesis by (simp add: m_end_def)
  qed
qed

text \<open>
  How a scan can end without a result: the pattern is rejected (\<^verbatim>\<open>new RegExp\<close> throws),
  a method is called on \<^verbatim>\<open>undefined\<close>, or the loop never ends.
\<close>

datatype failure = SyntaxError | TypeError | Diverges

text \<open>
  \<^verbatim>\<open>while (match = regEx.exec(s)) { ... }\<close> with \<^verbatim>\<open>lastIndex\<close> at \<open>i\<close>; the body
  yields the decorations it pushes, or throws. The loop has no state but \<^verbatim>\<open>lastIndex\<close>,
  and \<^verbatim>\<open>exec\<close> moves it to the end of the match: after a match that ends where the
  search began the same match is found again, for ever, and the loop does not return.
\<close>

function exec_loop :: "RegExp \<Rightarrow> string \<Rightarrow> (rmatch \<Rightarrow> failure + 'a list) \<Rightarrow> nat \<Rightarrow> failure + 'a list" where
  "exec_loop re s body i =
     (case exec re s i of
        None \<Rightarrow> Inr []
      | Some m \<Rightarrow>
          (case body m of
             Inl e \<Rightarrow> Inl e
           | Inr ds \<Rightarrow>
               if m_end m \<le> i then Inl Diverges
               else
                 (case exec_loop re s body (m_end m) of
                    Inl e \<Rightarrow> Inl e
                  | Inr ds' \<Rightarrow> Inr (ds @ ds'))))"
  by pat_completeness auto
termination
proof (relation "measure (\<lambda>(re, s, body, i). length s - i)")
  fix re :: RegExp and s :: string and body :: "rmatch \<Rightarrow> failure + 'a list"
    and i :: nat and m :: rmatch and ds :: "'a list"
  assume "exec re s i = Some m" and "\<not> m_end m \<le> i"
  with exec_bounds [of re s i m] have "length s - m_end m < length s - i"
    by arith
  then show "((re, s, body, m_end m), (re, s, body, i)) \<in> measure (\<lambda>(re, s, body, i). length s - i)"
    by simp
qed simp

declare exec_loop.simps [simp del]

section \<open>The editor's document\<close>

text \<open>
  The program reads the document through the editor's API: the text (all of it, or the
  part inside a range), and the conversion between offsets and positions (line and
  character, both from 0). The model covers documents whose lines end with a line feed;
  offsets and positions beyond the text are clamped to its end, as the API does.
\<close>

type_synonym Position = "nat \<times> nat"

type_synonym Range = "Position \<times> Position"

definition isBefore :: "Position \<Rightarrow> Position \<Rightarrow> bool" where
  "isBefore a b = (fst a < fst b \<or> (fst a = fst b \<and> snd a < snd b))"

text \<open>\<^verbatim>\<open>new vscode.Range(start, end)\<close> puts the earlier position first.\<close>

definition Range_new :: "Position \<Rightarrow> Position \<Rightarrow> Range" where
  "Range_new a b = (if isBefore a b then (a, b) else (b, a))"

record TextDocument =
  languageId :: string
  content :: string

record TextEditor =
  document :: TextDocument

fun position_from :: "string \<Rightarrow> nat \<Rightarrow> Position \<Rightarrow> Position" where
  "position_from [] n p = p"
| "position_from (c # cs) n p =
     (if n = 0 then p
      else if c = CHR 0x0A then position_from cs (n - 1) (Suc (fst p), 0)
      else position_from cs (n - 1) (fst p, Suc (snd p)))"

definition positionAt :: "TextDocument \<Rightarrow> nat \<Rightarrow> Position" where
  "positionAt doc offset = position_from (content doc) offset (0, 0)"

fun offset_from :: "string \<Rightarrow> Position \<Rightarrow> nat" where
  "offset_from [] p = 0"
| "offset_from (c # cs) p =
     (if fst p = 0 then
        (if snd p = 0 \<or> c = CHR 0x0A then 0 else Suc (offset_from cs (0, snd p - 1)))
      else Suc (offset_from cs (if c = CHR 0x0A then fst p - 1 else fst p, snd p)))"

definition offsetAt :: "TextDocument \<Rightarrow> Position \<Rightarrow> nat" where
  "offsetAt doc p = offset_from (content doc) p"

definition getText :: "TextDocument \<Rightarrow> Range option \<Rightarrow> string" where
  "getText doc r =
     (case r of
        None \<Rightarrow> content doc
      | Some (a, b) \<Rightarrow> take (offsetAt doc b - offsetAt doc a) (drop (offsetAt doc a) (content doc)))"

section \<open>Configuration: the comment syntax of a language\<close>

record CommentConfig =
  lineComment :: "string option"
  blockComment :: "(string \<times> string) option"

definition MARKDOWN_CODE_TO_LANGUAGE_MAP :: "(string \<times> string) list" where
  "MARKDOWN_CODE_TO_LANGUAGE_MAP =
     [(''bash'', ''bash''), (''bat'', ''bat''), (''batch'', ''bat''), (''c'', ''c''),
      (''clj'', ''clojure''), (''clojure'', ''clojure''), (''cpp'', ''cpp''),
      (''cs'', ''csharp''), (''csharp'', ''csharp''), (''css'', ''css''),
      (''docker'', ''dockerfile''), (''dockerfile'', ''dockerfile''),
      (''elixir'', ''elixir''), (''erl'', ''erlang''), (''erlang'', ''erlang''),
      (''ex'', ''elixir''), (''fs'', ''fsharp''), (''fsharp'', ''fsharp''), (''go'', ''go''),
      (''gradle.kts'', ''groovy''), (''gradle.kts'', ''groovy''), (''gradle'', ''groovy''),
      (''groovy'', ''groovy''), (''haskell'', ''haskell''), (''hs'', ''haskell''),
      (''html'', ''html''), (''ini'', ''ini''), (''java'', ''java''),
      (''javascript'', ''javascript''), (''js'', ''javascript''), (''json'', ''json''),
      (''kotlin'', ''kotlin''), (''kt'', ''kotlin''), (''less'', ''less''), (''lua'', ''lua''),
      (''pascal'', ''pascal''), (''perl'', ''perl''), (''perl6'', ''perl6''), (''php'', ''php''),
      (''powershell'', ''powershell''), (''properties'', ''properties''),
      (''ps'', ''powershell''), (''py'', ''python''), (''python'', ''python''), (''r'', ''r''),
      (''raku'', ''perl6''), (''rb'', ''ruby''), (''rs'', ''rust''), (''ruby'', ''ruby''),
      (''rust'', ''rust''), (''sass'', ''sass''), (''scala'', ''scala''), (''scss'', ''scss''),
      (''sh'', ''shell''), (''shell'', ''shell''), (''sql'', ''sql''), (''swift'', ''swift''),
      (''ts'', ''typescript''), (''typescript'', ''typescript''), (''vb'', ''vb''),
      (''vbnet'', ''vb''), (''visualbasic'', ''vb''), (''xml'', ''xml''), (''yaml'', ''yaml''),
      (''yml'', ''yaml'')]"

text \<open>
  The \<^verbatim>\<open>Configuration\<close> object: the alias table (a module-level map the constructor
  adjusts), the cache of comment syntaxes read so far, the configuration file each
  language's extension declares, and (the environment) what reading and parsing a file
  yields: nothing when that throws, else the file's \<^verbatim>\<open>comments\<close> entry, which may be
  absent.
\<close>

record Configuration =
  markdownMap :: "string \<rightharpoonup> string"
  commentConfig :: "string \<rightharpoonup> CommentConfig option"
  languageConfigFiles :: "string \<rightharpoonup> string"
  readComments :: "string \<rightharpoonup> CommentConfig option"

text \<open>\<^verbatim>\<open>UpdateLanguagesDefinitions\<close>, given the languages the installed extensions
  contribute with a configuration file (language id and path, in order).\<close>

definition UpdateLanguagesDefinitions :: "(string \<times> string) list \<Rightarrow> Configuration \<Rightarrow> Configuration" where
  "UpdateLanguagesDefinitions languages c =
     c\<lparr>commentConfig := Map.empty,
       languageConfigFiles := fold (\<lambda>(lang, path) m. m(lang \<mapsto> path)) languages (languageConfigFiles c)\<rparr>"

text \<open>The constructor. It changes the module-level alias table: every registered language
  that the table sends elsewhere is made to stand for itself. The table is shared by all
  \<^verbatim>\<open>Configuration\<close> objects, so the constructor takes it as it stands (for the first
  object, the table of the source text) and the object holds it as changed; an object
  built later is built from the table the earlier one left.\<close>

definition Configuration_new :: "(string \<rightharpoonup> string) \<Rightarrow> (string \<times> string) list \<Rightarrow> (string \<rightharpoonup> CommentConfig option) \<Rightarrow> Configuration" where
  "Configuration_new aliases languages files =
     (let c = UpdateLanguagesDefinitions languages
                \<lparr>markdownMap = aliases, commentConfig = Map.empty,
                 languageConfigFiles = Map.empty, readComments = files\<rparr>
      in c\<lparr>markdownMap :=
             (\<lambda>lan. case languageConfigFiles c lan of
                       None \<Rightarrow> markdownMap c lan
                     | Some path \<Rightarrow>
                         (case markdownMap c lan of
                            None \<Rightarrow> None
                          | Some markdownLan \<Rightarrow>
                              if markdownLan \<noteq> [] \<and> lan \<noteq> markdownLan then Some lan
                              else Some markdownLan))\<rparr>)"

text \<open>\<^verbatim>\<open>GetCommentConfiguration\<close>: the comment syntax of a language, or nothing
  (\<^verbatim>\<open>undefined\<close>); the result is cached, so the configuration is returned as well.\<close>

definition GetCommentConfiguration :: "Configuration \<Rightarrow> string \<Rightarrow> CommentConfig option \<times> Configuration" where
  "GetCommentConfiguration c languageCode0 =
     (let languageCode =
            (case markdownMap c languageCode0 of
               None \<Rightarrow> languageCode0
             | Some l \<Rightarrow> if l = [] then languageCode0 else l)
      in case commentConfig c languageCode of
           Some cached \<Rightarrow> (cached, c)
         | None \<Rightarrow>
             (case languageConfigFiles c languageCode of
                None \<Rightarrow> (None, c)
              | Some filePath \<Rightarrow>
                  (case readComments c filePath of
                     Some comments \<Rightarrow> (comments, c\<lparr>commentConfig := (commentConfig c)(languageCode \<mapsto> comments)\<rparr>)
                   | None \<Rightarrow> (None, c\<lparr>commentConfig := (commentConfig c)(languageCode \<mapsto> None)\<rparr>))))"

section \<open>Tags and the parser's input\<close>

record DecorationRenderOptions =
  opt_color :: string
  opt_backgroundColor :: string
  opt_textDecoration :: string
  opt_fontWeight :: "string option"
  opt_fontStyle :: "string option"

text \<open>A decoration type is a handle the editor creates; two handles are the same only
  if they come from the same call, which the number records.\<close>

record TextEditorDecorationType =
  dt_key :: nat
  dt_options :: DecorationRenderOptions

record CommentTag =
  tag :: string
  escapedTag :: string
  decoration :: TextEditorDecorationType
  ranges :: "Range list"

record TagItem =
  item_tag :: string
  item_color :: string
  item_strikethrough :: bool
  item_underline :: bool
  item_bold :: bool
  item_italic :: bool
  item_backgroundColor :: string

record Contributions =
  highlightMarkdown :: bool
  multilineComments :: bool
  useJSDocStyle :: bool
  highlightPlainText :: bool
  tag_items :: "TagItem list"

record IInput =
  activeEditor :: TextEditor
  configuration :: Configuration
  languageCode :: string
  range_opt :: "Range option"
  contributions :: Contributions
  tags :: "CommentTag list"

record IDecoration =
  type :: TextEditorDecorationType
  range' :: Range

record ICommentFormat =
  blockCommentStart :: string
  blockCommentEnd :: string
  delimiter :: string

record IParserState = ICommentFormat +
  supportedLanguage :: bool
  ignoreFirstLine :: bool
  isPlainText :: bool
  highlightJSDoc :: bool
  highlightSingleLineComments :: bool
  highlightMultilineComments :: bool

abbreviation (input) bsl :: string where
  "bsl \<equiv> [CHR 0x5C]"

text \<open>\<^verbatim>\<open>s.replace(/[...]/g, '\\$&')\<close>: a backslash before every character of the class.\<close>

definition escape_chars :: "string \<Rightarrow> string \<Rightarrow> string" where
  "escape_chars cls s = concat (map (\<lambda>c. if c \<in> set cls then [CHR 0x5C, c] else [c]) s)"

definition escapeRegExp :: "string \<Rightarrow> string" where
  "escapeRegExp input = escape_chars (''.*+?^${}()|[]'' @ bsl) input"

text \<open>The first argument of \<^verbatim>\<open>genCommentFormat\<close> is a string, an array of strings, or
  \<^verbatim>\<open>null\<close>; the other two are strings or \<^verbatim>\<open>null\<close>. The empty string counts as false.\<close>

datatype singleLine = Null | Str string | Arr "string list"

definition genCommentFormat :: "singleLine \<Rightarrow> string option \<Rightarrow> string option \<Rightarrow> ICommentFormat" where
  "genCommentFormat singleLine start end' =
     (let r = \<lparr>blockCommentStart = [], blockCommentEnd = [], delimiter = []\<rparr>;
          r = (case singleLine of
                 Null \<Rightarrow> r
               | Str s \<Rightarrow> if s = [] then r else r\<lparr>delimiter := escape_chars ''/'' (escapeRegExp s)\<rparr>
               | Arr ss \<Rightarrow>
                   if 0 < length ss then r\<lparr>delimiter := join ''|'' (map escapeRegExp ss)\<rparr> else r)
      in case (start, end') of
           (Some a, Some b) \<Rightarrow>
             if a \<noteq> [] \<and> b \<noteq> []
             then r\<lparr>blockCommentStart := escapeRegExp a, blockCommentEnd := escapeRegExp b\<rparr>
             else r
         | _ \<Rightarrow> r)"

text \<open>\<^verbatim>\<open>a || b\<close> on values that are a string or absent.\<close>

definition or_else :: "string option \<Rightarrow> string option \<Rightarrow> string option" where
  "or_else a b = (case a of Some s \<Rightarrow> if s = [] then b else Some s | None \<Rightarrow> b)"

definition truthy :: "string option \<Rightarrow> bool" where
  "truthy a = (case a of Some s \<Rightarrow> s \<noteq> [] | None \<Rightarrow> False)"

text \<open>
  \<^verbatim>\<open>processState\<close>. A field the source leaves \<^verbatim>\<open>undefined\<close> is \<open>False\<close> here when
  it is a flag (the program only tests it) and empty when it is a string (the program
  reads the three strings only where a comment syntax was found and set them).
\<close>

definition processState :: "IInput \<Rightarrow> IParserState \<times> Configuration" where
  "processState input =
     (let r = \<lparr>blockCommentStart = [], blockCommentEnd = [], delimiter = [],
               supportedLanguage = False, ignoreFirstLine = False, isPlainText = False,
               highlightJSDoc = False, highlightSingleLineComments = False,
               highlightMultilineComments = False\<rparr>;
          (config, configuration') = GetCommentConfiguration (configuration input) (languageCode input);
          r = (case config of
                 None \<Rightarrow> r
               | Some config \<Rightarrow>
                   (let blockCommentStart = map_option fst (blockComment config);
                        blockCommentEnd = map_option snd (blockComment config);
                        commentFormat =
                          genCommentFormat
                            (case or_else (lineComment config) blockCommentStart of
                               None \<Rightarrow> Null | Some s \<Rightarrow> Str s)
                            blockCommentStart blockCommentEnd
                    in r\<lparr>blockCommentStart := ICommentFormat.blockCommentStart commentFormat,
                         blockCommentEnd := ICommentFormat.blockCommentEnd commentFormat,
                         delimiter := ICommentFormat.delimiter commentFormat,
                         supportedLanguage := True,
                         highlightSingleLineComments := truthy blockCommentStart,
                         highlightMultilineComments :=
                           (if truthy blockCommentStart \<and> truthy blockCommentEnd
                            then multilineComments (contributions input) else False)\<rparr>));
          lc = languageCode input
      in (if lc = ''apex'' \<or> lc = ''javascript'' \<or> lc = ''javascriptreact''
             \<or> lc = ''typescript'' \<or> lc = ''typescriptreact''
          then r\<lparr>highlightJSDoc := True\<rparr>
          else if lc = ''elixir'' \<or> lc = ''python'' \<or> lc = ''tcl''
          then r\<lparr>ignoreFirstLine := True\<rparr>
          else if lc = ''plaintext''
          then r\<lparr>isPlainText := True,
                 supportedLanguage := highlightPlainText (contributions input)\<rparr>
          else r,
          configuration'))"

definition genSingleLineRegex :: "IInput \<Rightarrow> IParserState \<Rightarrow> string" where
  "genSingleLineRegex input s =
     (if \<not> supportedLanguage s then []
      else
        (let characters = map escapedTag (tags input);
             expression =
               (if isPlainText s \<and> highlightPlainText (contributions input)
                then ''(^)+([ '' @ bsl @ ''t]*[ '' @ bsl @ ''t]*)''
                else ''('' @ delimiter s @ '')+( |'' @ [CHR 0x09] @ '')*'')
         in expression @ ''('' @ join ''|'' characters @ '')+(.*)''))"

text \<open>
  \<^verbatim>\<open>input.tags.find(item => item.tag.toLowerCase() === matchString.toLowerCase())\<close>. When
  the group took no part in the match, \<^verbatim>\<open>matchString\<close> is \<^verbatim>\<open>undefined\<close> and the first
  call of the test throws; with no tags the test is never called.
\<close>

definition find_tag :: "CommentTag list \<Rightarrow> string option \<Rightarrow> failure + CommentTag option" where
  "find_tag ts matchString =
     (case matchString of
        None \<Rightarrow> if ts = [] then Inr None else Inl TypeError
      | Some ms \<Rightarrow> Inr (find (\<lambda>item. toLowerCase (tag item) = toLowerCase ms) ts))"

text \<open>What a loop body does once it has the two positions and the captured tag.\<close>

definition push_decoration :: "CommentTag list \<Rightarrow> string option \<Rightarrow> Position \<Rightarrow> Position \<Rightarrow> failure + IDecoration list" where
  "push_decoration ts matchString startPos endPos =
     (case find_tag ts matchString of
        Inl e \<Rightarrow> Inl e
      | Inr None \<Rightarrow> Inr []
      | Inr (Some matchTag) \<Rightarrow>
          Inr [\<lparr>type = decoration matchTag, range' = Range_new startPos endPos\<rparr>])"

definition range_offset :: "IInput \<Rightarrow> nat" where
  "range_offset input =
     (case range_opt input of
        Some r \<Rightarrow> offsetAt (document (activeEditor input)) (fst r)
      | None \<Rightarrow> 0)"

definition findSingleLineComments :: "IInput \<Rightarrow> IParserState \<Rightarrow> failure + IDecoration list" where
  "findSingleLineComments input s =
     (if \<not> highlightSingleLineComments s then Inr []
      else
        (let doc = document (activeEditor input);
             text = getText doc (range_opt input);
             regexFlags = (if isPlainText s then ''igm'' else ''ig'')
         in case RegExp_new (genSingleLineRegex input s) regexFlags of
              None \<Rightarrow> Inl SyntaxError
            | Some regEx \<Rightarrow>
                (let offset = range_offset input
                 in exec_loop regEx text
                      (\<lambda>match.
                         let startPos = positionAt doc (offset + m_index match);
                             endPos = positionAt doc (offset + m_index match + length (m_text match))
                         in if ignoreFirstLine s \<and> fst startPos = 0 \<and> snd startPos = 0
                            then Inr []
                            else push_decoration (tags input) (capture match 3) startPos endPos)
                      0)))"

text \<open>
  The body of the outer loop of \<^verbatim>\<open>findBlockComments\<close> and of \<^verbatim>\<open>findJSDocComments\<close>
  (the two are the same text): the inner loop over the tagged lines of one comment
  block. \<^verbatim>\<open>line[2].length\<close> is read before the tag is looked up.
\<close>

definition comment_block_lines :: "IInput \<Rightarrow> RegExp \<Rightarrow> nat \<Rightarrow> rmatch \<Rightarrow> failure + IDecoration list" where
  "comment_block_lines input commentRegEx offset match =
     (let doc = document (activeEditor input);
          commentBlock = m_text match
      in exec_loop commentRegEx commentBlock
           (\<lambda>line.
              case capture line 2 of
                None \<Rightarrow> Inl TypeError
              | Some line2 \<Rightarrow>
                  (let startPos = positionAt doc (offset + m_index match + m_index line + length line2);
                       endPos = positionAt doc (offset + m_index match + m_index line + length (m_text line))
                   in push_decoration (tags input) (capture line 3) startPos endPos))
           0)"

text \<open>The two patterns of \<^verbatim>\<open>findBlockComments\<close>: \<^verbatim>\<open>regexString\<close>, which finds a
  comment block, and \<^verbatim>\<open>commentMatchString\<close>, which finds a tagged line inside one.\<close>

definition block_regexString :: "IParserState \<Rightarrow> string" where
  "block_regexString s =
     ''(^|[ '' @ bsl @ ''t])('' @ blockCommentStart s @ ''['' @ bsl @ ''s])+([''
     @ bsl @ ''s'' @ bsl @ ''S]*?)('' @ blockCommentEnd s @ '')''"

definition block_commentMatchString :: "IInput \<Rightarrow> string" where
  "block_commentMatchString input =
     (let characters = map escapedTag (tags input)
      in ''(^)+([ '' @ bsl @ ''t]*[ '' @ bsl @ ''t]*)('' @ join ''|'' characters
         @ '')([ ]*|[:])+([^*/][^'' @ bsl @ ''r'' @ bsl @ ''n]*)'')"

definition findBlockComments :: "IInput \<Rightarrow> IParserState \<Rightarrow> failure + IDecoration list" where
  "findBlockComments input s =
     (if \<not> highlightMultilineComments s then Inr []
      else
        (let doc = document (activeEditor input);
             text = getText doc (range_opt input)
         in case RegExp_new (block_regexString s) ''gm'' of
              None \<Rightarrow> Inl SyntaxError
            | Some regEx \<Rightarrow>
                (case RegExp_new (block_commentMatchString input) ''igm'' of
                   None \<Rightarrow> Inl SyntaxError
                 | Some commentRegEx \<Rightarrow>
                     exec_loop regEx text
                       (comment_block_lines input commentRegEx (range_offset input)) 0)))"

text \<open>The pattern literal \<^verbatim>\<open>/(^|[ \t])(\/\*\*)+([\s\S]*?)(\*\/)/gm\<close>.\<close>

definition jsdoc_block_source :: string where
  "jsdoc_block_source =
     ''(^|[ '' @ bsl @ ''t])('' @ bsl @ ''/'' @ bsl @ ''*'' @ bsl @ ''*)+([''
     @ bsl @ ''s'' @ bsl @ ''S]*?)('' @ bsl @ ''*'' @ bsl @ ''/)''"

definition jsdoc_commentMatchString :: "IInput \<Rightarrow> string" where
  "jsdoc_commentMatchString input =
     (let characters = map escapedTag (tags input)
      in ''(^)+([ '' @ bsl @ ''t]*'' @ bsl @ ''*[ '' @ bsl @ ''t]*)('' @ join ''|'' characters
         @ '')([ ]*|[:])+([^*/][^'' @ bsl @ ''r'' @ bsl @ ''n]*)'')"

definition findJSDocComments :: "IInput \<Rightarrow> IParserState \<Rightarrow> failure + IDecoration list" where
  "findJSDocComments input s =
     (if \<not> highlightMultilineComments s \<and> \<not> highlightJSDoc s then Inr []
      else
        (let doc = document (activeEditor input);
             text = getText doc (range_opt input)
         in case RegExp_new jsdoc_block_source ''gm'' of
              None \<Rightarrow> Inl SyntaxError
            | Some regEx \<Rightarrow>
                (case RegExp_new (jsdoc_commentMatchString input) ''igm'' of
                   None \<Rightarrow> Inl SyntaxError
                 | Some commentRegEx \<Rightarrow>
                     exec_loop regEx text
                       (comment_block_lines input commentRegEx (range_offset input)) 0)))"

text \<open>\<^verbatim>\<open>findMarkdownTextComments\<close> takes no parse state, and adds no range offset to
  \<^verbatim>\<open>match.index\<close>.\<close>

definition markdown_expression :: "IInput \<Rightarrow> string" where
  "markdown_expression input =
     (let characters = map escapedTag (tags input)
      in ''^[ '' @ bsl @ ''t]*('' @ bsl @ ''* |- |'' @ bsl @ ''* '' @ bsl @ ''[ '' @ bsl
         @ ''] |- '' @ bsl @ ''[ '' @ bsl @ ''])[ '' @ bsl @ ''t]*''
         @ ''('' @ join ''|'' characters @ '')+(.*)'')"

definition findMarkdownTextComments :: "IInput \<Rightarrow> failure + IDecoration list" where
  "findMarkdownTextComments input =
     (if languageCode input \<noteq> ''markdown'' then Inr []
      else if \<not> highlightMarkdown (contributions input) then Inr []
      else
        (let doc = document (activeEditor input);
             text = getText doc (range_opt input)
         in case RegExp_new (markdown_expression input) ''igm'' of
              None \<Rightarrow> Inl SyntaxError
            | Some regEx \<Rightarrow>
                exec_loop regEx text
                  (\<lambda>match.
                     let startPos = positionAt doc (m_index match);
                         endPos = positionAt doc (m_index match + length (m_text match))
                     in push_decoration (tags input) (capture match 2) startPos endPos)
                  0))"

text \<open>The pattern literal \<^verbatim>\<open>/```\s*(\w+)\s*([\s\S]*?)```/gm\<close>.\<close>

definition code_block_source :: string where
  "code_block_source =
     ''```'' @ bsl @ ''s*('' @ bsl @ ''w+)'' @ bsl @ ''s*(['' @ bsl @ ''s'' @ bsl @ ''S]*?)```''"

text \<open>
  The body of the loop of \<^verbatim>\<open>findMarkdownCodeComments\<close> for one fenced block: the block
  is scanned as a document of the language its label names. \<^verbatim>\<open>processState\<close> goes
  through the configuration's cache, so the configuration is passed along. Both groups
  take part in every match of the pattern; \<^verbatim>\<open>indexOf\<close> yields -1 for a string that does
  not occur, and \<^verbatim>\<open>positionAt\<close> takes a negative offset for 0.
\<close>

definition code_block_comments :: "IInput \<Rightarrow> Configuration \<Rightarrow> rmatch \<Rightarrow> failure + (IDecoration list \<times> Configuration)" where
  "code_block_comments input c match =
     (case (capture match 1, capture match 2) of
        (Some languageCode', Some codeBlock) \<Rightarrow>
          (let doc = document (activeEditor input);
               (startOffset, endOffset) =
                 (case indexOf (m_text match) codeBlock of
                    Some codeBLockIndex \<Rightarrow>
                      (m_index match + codeBLockIndex,
                       m_index match + codeBLockIndex + length codeBlock)
                  | None \<Rightarrow> (m_index match - 1, m_index match + length codeBlock - 1));
               startPos = positionAt doc startOffset;
               endPos = positionAt doc endOffset;
               newInput = input\<lparr>configuration := c, languageCode := languageCode',
                                range_opt := Some (Range_new startPos endPos)\<rparr>;
               (newState, c') = processState newInput
           in case findSingleLineComments newInput newState of
                Inl e \<Rightarrow> Inl e
              | Inr singles \<Rightarrow>
                  (case findBlockComments newInput newState of
                     Inl e \<Rightarrow> Inl e
                   | Inr blocks \<Rightarrow> Inr (singles @ blocks, c')))
      | _ \<Rightarrow> Inl TypeError)"

function code_block_loop :: "RegExp \<Rightarrow> string \<Rightarrow> IInput \<Rightarrow> Configuration \<Rightarrow> nat \<Rightarrow> failure + (IDecoration list \<times> Configuration)" where
  "code_block_loop re s input c i =
     (case exec re s i of
        None \<Rightarrow> Inr ([], c)
      | Some m \<Rightarrow>
          (case code_block_comments input c m of
             Inl e \<Rightarrow> Inl e
           | Inr (ds, c') \<Rightarrow>
               if m_end m \<le> i then Inl Diverges
               else
                 (case code_block_loop re s input c' (m_end m) of
                    Inl e \<Rightarrow> Inl e
                  | Inr (ds', c'') \<Rightarrow> Inr (ds @ ds', c''))))"
  by pat_completeness auto
termination
proof (relation "measure (\<lambda>(re, s, input, c, i). length s - i)")
  fix re :: RegExp and s :: string and input :: IInput and c c' :: Configuration
    and i :: nat and m :: rmatch
  assume "exec re s i = Some m" and "\<not> m_end m \<le> i"
  with exec_bounds [of re s i m] have "length s - m_end m < length s - i"
    by arith
  then show "((re, s, input, c', m_end m), (re, s, input, c, i))
      \<in> measure (\<lambda>(re, s, input, c, i). length s - i)"
    by simp
qed simp

declare code_block_loop.simps [simp del]

definition findMarkdownCodeComments :: "IInput \<Rightarrow> failure + (IDecoration list \<times> Configuration)" where
  "findMarkdownCodeComments input =
     (if languageCode input \<noteq> ''markdown'' then Inr ([], configuration input)
      else
        (let text = getText (document (activeEditor input)) (range_opt input)
         in case RegExp_new code_block_source ''gm'' of
              None \<Rightarrow> Inl SyntaxError
            | Some regEx \<Rightarrow> code_block_loop regEx text input (configuration input) 0))"

section \<open>The parser object\<close>

record Parser =
  parser_tags :: "CommentTag list"
  parser_contributions :: Contributions
  parser_configuration :: Configuration

text \<open>\<^verbatim>\<open>setTags\<close>: one tag per configured item, in order; the \<open>n\<close>-th decoration type
  created is number \<open>n\<close>.\<close>

definition tag_options :: "TagItem \<Rightarrow> DecorationRenderOptions" where
  "tag_options item =
     \<lparr>opt_color = item_color item,
      opt_backgroundColor = item_backgroundColor item,
      opt_textDecoration =
        (if item_strikethrough item then ''line-through'' else [])
        @ (if item_underline item then '' underline'' else []),
      opt_fontWeight = (if item_bold item then Some ''bold'' else None),
      opt_fontStyle = (if item_italic item then Some ''italic'' else None)\<rparr>"

definition escape_tag :: "string \<Rightarrow> string" where
  "escape_tag t = escape_chars ''/'' (escape_chars (''()[{*+.$^'' @ bsl @ ''|?'') t)"

fun setTags :: "TagItem list \<Rightarrow> CommentTag list \<Rightarrow> CommentTag list" where
  "setTags [] ts = ts"
| "setTags (item # items) ts =
     setTags items
       (ts @ [\<lparr>tag = item_tag item,
               escapedTag = escape_tag (item_tag item),
               decoration = \<lparr>dt_key = length ts, dt_options = tag_options item\<rparr>,
               ranges = []\<rparr>])"

definition Parser_new :: "Contributions \<Rightarrow> Configuration \<Rightarrow> Parser" where
  "Parser_new contribs config =
     \<lparr>parser_tags = setTags (tag_items contribs) [],
      parser_contributions = contribs,
      parser_configuration = config\<rparr>"

definition genInput :: "Parser \<Rightarrow> TextEditor \<Rightarrow> IInput" where
  "genInput p editor =
     \<lparr>activeEditor = editor,
      configuration = parser_configuration p,
      languageCode = languageId (document editor),
      range_opt = None,
      contributions = parser_contributions p,
      tags = parser_tags p\<rparr>"

text \<open>\<^verbatim>\<open>addDecoration\<close>: the ranges are collected by decoration type, in the order found.\<close>

fun addDecoration :: "IDecoration list \<Rightarrow> (TextEditorDecorationType \<rightharpoonup> Range list) \<Rightarrow> (TextEditorDecorationType \<rightharpoonup> Range list)" where
  "addDecoration [] m = m"
| "addDecoration (d # ds) m =
     addDecoration ds
       (case m (type d) of
          Some rs \<Rightarrow> m(type d \<mapsto> rs @ [range' d])
        | None \<Rightarrow> m(type d \<mapsto> [range' d]))"

text \<open>
  \<^verbatim>\<open>UpdateDecorations\<close>: the five scans in order, then for every tag the two calls of
  \<^verbatim>\<open>setDecorations\<close> (first with no range, then with the ranges found). The result is
  the list of these calls, and the configuration with its cache as the scans left it.
\<close>

definition UpdateDecorations :: "Parser \<Rightarrow> TextEditor \<Rightarrow> failure + ((TextEditorDecorationType \<times> Range list) list \<times> Configuration)" where
  "UpdateDecorations p editor =
     (let intput = genInput p editor;
          (state, c) = processState intput;
          intput = intput\<lparr>configuration := c\<rparr>
      in case findSingleLineComments intput state of
           Inl e \<Rightarrow> Inl e
         | Inr d1 \<Rightarrow>
             (case findBlockComments intput state of
                Inl e \<Rightarrow> Inl e
              | Inr d2 \<Rightarrow>
                  (case findJSDocComments intput state of
                     Inl e \<Rightarrow> Inl e
                   | Inr d3 \<Rightarrow>
                       (case findMarkdownTextComments intput of
                          Inl e \<Rightarrow> Inl e
                        | Inr d4 \<Rightarrow>
                            (case findMarkdownCodeComments intput of
                               Inl e \<Rightarrow> Inl e
                             | Inr (d5, c') \<Rightarrow>
                                 (let m = addDecoration d5 (addDecoration d4 (addDecoration d3
                                            (addDecoration d2 (addDecoration d1 Map.empty))))
                                  in Inr (concat (map (\<lambda>t.
                                            [(decoration t, []),
                                             (decoration t,
                                              (case m (decoration t) of Some rs \<Rightarrow> rs | None \<Rightarrow> []))])
                                            (parser_tags p)), c')))))))"

section \<open>A concrete editor\<close>

text \<open>
  One tag, \<^verbatim>\<open>TODO\<close>, and four installed languages: JavaScript and Python with line
  and block comments, YAML with line comments only, Markdown with block comments only.
  TypeScript is not installed.
\<close>

definition example_item :: "string \<Rightarrow> TagItem" where
  "example_item t =
     \<lparr>item_tag = t, item_color = ''#FF8C00'', item_strikethrough = False,
      item_underline = False, item_bold = False, item_italic = False,
      item_backgroundColor = ''transparent''\<rparr>"

definition example_contributions :: Contributions where
  "example_contributions =
     \<lparr>highlightMarkdown = True, multilineComments = True, useJSDocStyle = True,
      highlightPlainText = False, tag_items = [example_item ''TODO'']\<rparr>"

definition example_files :: "string \<rightharpoonup> CommentConfig option" where
  "example_files =
     [''javascript.json'' \<mapsto> Some \<lparr>lineComment = Some ''//'', blockComment = Some (''/*'', ''*/'')\<rparr>,
      ''python.json'' \<mapsto> Some \<lparr>lineComment = Some ''#'', blockComment = Some (''\"\"\"'', ''\"\"\"'')\<rparr>,
      ''yaml.json'' \<mapsto> Some \<lparr>lineComment = Some ''#'', blockComment = None\<rparr>,
      ''markdown.json'' \<mapsto> Some \<lparr>lineComment = None, blockComment = Some (''<!--'', ''-->'')\<rparr>]"

definition example_configuration :: Configuration where
  "example_configuration =
     Configuration_new (map_of MARKDOWN_CODE_TO_LANGUAGE_MAP)
       [(''javascript'', ''javascript.json''), (''python'', ''python.json''),
        (''yaml'', ''yaml.json''), (''markdown'', ''markdown.json'')]
       example_files"

definition example_parser :: Parser where
  "example_parser = Parser_new example_contributions example_configuration"

definition example_input :: "string \<Rightarrow> string \<Rightarrow> IInput" where
  "example_input lang txt =
     genInput example_parser \<lparr>document = \<lparr>languageId = lang, content = txt\<rparr>\<rparr>"

definition example_todo :: TextEditorDecorationType where
  "example_todo =
     \<lparr>dt_key = 0,
      dt_options = \<lparr>opt_color = ''#FF8C00'', opt_backgroundColor = ''transparent'',
                    opt_textDecoration = [], opt_fontWeight = None, opt_fontStyle = None\<rparr>\<rparr>"

section \<open>Reading the patterns the program builds\<close>

text \<open>
  An escaped delimiter or tag is read back as the characters it was made from, each as
  one literal token; so the pattern built around them has the syntax tree one expects.
\<close>

definition lits :: "string \<Rightarrow> regex" where
  "lits s = seqs (map Chr s)"

definition plain_char :: "char \<Rightarrow> bool" where
  "plain_char c = (c \<notin> set (''[(*+?{)|.^$'' @ bsl))"

lemma tokenise_plain:
  "plain_char c \<Longrightarrow> tokenise (c # cs) = map_option ((#) (TChar c)) (tokenise cs)"
  by (simp add: plain_char_def)

lemma escape_token_special_all:
  "list_all (\<lambda>c. escape_token c = Some (TChar c)) (''.*+?^${}()|[]/'' @ bsl)"
  by code_simp

lemma escape_token_special:
  "c \<in> set (''.*+?^${}()|[]/'' @ bsl) \<Longrightarrow> escape_token c = Some (TChar c)"
  using escape_token_special_all unfolding list_all_iff by blast

lemma plain_char_unless:
  "set (''[(*+?{)|.^$'' @ bsl) \<subseteq> set cls \<Longrightarrow> c \<notin> set cls \<Longrightarrow> plain_char c"
  unfolding plain_char_def by blast

lemma tokenise_escaped:
  "escape_token c = Some (TChar c) \<Longrightarrow>
   tokenise (CHR 0x5C # c # cs) = map_option ((#) (TChar c)) (tokenise cs)"
  by simp

lemma tokenise_escape_chars:
  assumes "\<And>c. c \<in> set cls \<Longrightarrow> escape_token c = Some (TChar c)"
    and "\<And>c. c \<notin> set cls \<Longrightarrow> plain_char c"
  shows "tokenise (escape_chars cls s @ rest) = map_option ((@) (map TChar s)) (tokenise rest)"
proof (induction s)
  case Nil
  show ?case by (simp add: escape_chars_def option.map_ident)
next
  case (Cons c s)
  have eq: "escape_chars cls (c # s) = (if c \<in> set cls then [CHR 0x5C, c] else [c]) @ escape_chars cls s"
    by (simp add: escape_chars_def)
  show ?case
  proof (cases "c \<in> set cls")
    case True
    then show ?thesis
      using assms(1) [OF True] Cons.IH
      by (simp only: eq if_True append_Cons append_Nil tokenise_escaped list.map)
         (simp add: option.map_comp comp_def)
  next
    case False
    then show ?thesis
      using assms(2) [OF False] Cons.IH
      by (simp only: eq if_False append_Cons append_Nil tokenise_plain list.map)
         (simp add: option.map_comp comp_def)
  qed
qed

lemma escape_chars_twice:
  assumes "CHR ''/'' \<notin> set cls"
  shows "escape_chars ''/'' (escape_chars cls s) = escape_chars (cls @ ''/'') s"
  using assms by (induction s) (auto simp: escape_chars_def)

lemma tokenise_escapeRegExp:
  "tokenise (escapeRegExp s @ rest) = map_option ((@) (map TChar s)) (tokenise rest)"
  unfolding escapeRegExp_def
proof (rule tokenise_escape_chars)
  fix c :: char
  assume "c \<in> set (''.*+?^${}()|[]'' @ bsl)"
  then have "c \<in> set (''.*+?^${}()|[]/'' @ bsl)" by (rule subsetD [rotated]) simp
  then show "escape_token c = Some (TChar c)" by (rule escape_token_special)
next
  fix c :: char
  assume "c \<notin> set (''.*+?^${}()|[]'' @ bsl)"
  then show "plain_char c" by (rule plain_char_unless [rotated]) simp
qed

lemma tokenise_delimiter:
  "tokenise (escape_chars ''/'' (escapeRegExp s) @ rest) = map_option ((@) (map TChar s)) (tokenise rest)"
proof -
  have eq: "escape_chars ''/'' (escapeRegExp s) = escape_chars ((''.*+?^${}()|[]'' @ bsl) @ ''/'') s"
    unfolding escapeRegExp_def by (rule escape_chars_twice) simp
  show ?thesis
    unfolding eq
  proof (rule tokenise_escape_chars)
    fix c :: char
    assume "c \<in> set ((''.*+?^${}()|[]'' @ bsl) @ ''/'')"
    then have "c \<in> set (''.*+?^${}()|[]/'' @ bsl)" by (rule subsetD [rotated]) simp
    then show "escape_token c = Some (TChar c)" by (rule escape_token_special)
  next
    fix c :: char
    assume "c \<notin> set ((''.*+?^${}()|[]'' @ bsl) @ ''/'')"
    then show "plain_char c" by (rule plain_char_unless [rotated]) simp
  qed
qed

lemma tokenise_escape_tag:
  "tokenise (escape_tag s @ rest) = map_option ((@) (map TChar s)) (tokenise rest)"
proof -
  have eq: "escape_tag s = escape_chars ((''()[{*+.$^'' @ bsl @ ''|?'') @ ''/'') s"
    unfolding escape_tag_def by (rule escape_chars_twice) simp
  show ?thesis
    unfolding eq
  proof (rule tokenise_escape_chars)
    fix c :: char
    assume "c \<in> set ((''()[{*+.$^'' @ bsl @ ''|?'') @ ''/'')"
    then have "c \<in> set (''.*+?^${}()|[]/'' @ bsl)" by (rule subsetD [rotated]) simp
    then show "escape_token c = Some (TChar c)" by (rule escape_token_special)
  next
    fix c :: char
    assume "c \<notin> set ((''()[{*+.$^'' @ bsl @ ''|?'') @ ''/'')"
    then show "plain_char c" by (rule plain_char_unless [rotated]) simp
  qed
qed

lemma parse_tokens_append:
  "parse_tokens (a @ b) st = (case parse_tokens a st of None \<Rightarrow> None | Some st' \<Rightarrow> parse_tokens b st')"
  by (induction a arbitrary: st) (auto split: option.splits)

lemma parse_tokens_chars:
  "parse_tokens (map TChar s @ rest) (Frame as ts g # fs, n)
     = parse_tokens rest (Frame as (rev (map Chr s) @ ts) g # fs, n)"
  by (induction s arbitrary: ts) simp_all

fun tag_tokens :: "string list \<Rightarrow> token list" where
  "tag_tokens [] = []"
| "tag_tokens [t] = map TChar t"
| "tag_tokens (t # u # us) = map TChar t @ TBar # tag_tokens (u # us)"

lemma tokenise_bar:
  "tokenise (CHR ''|'' # cs) = map_option ((#) TBar) (tokenise cs)"
  by simp

lemma tokenise_join_tags:
  "tokenise (join ''|'' (map escape_tag ts) @ rest) = map_option ((@) (tag_tokens ts)) (tokenise rest)"
proof (induction ts rule: tag_tokens.induct)
  case 1
  show ?case by (simp add: option.map_ident)
next
  case (2 t)
  show ?case by (simp add: tokenise_escape_tag)
next
  case (3 t u us)
  have "tokenise (join ''|'' (map escape_tag (t # u # us)) @ rest)
      = tokenise (escape_tag t @ CHR ''|'' # (join ''|'' (map escape_tag (u # us)) @ rest))"
    by simp
  also have "\<dots> = map_option ((@) (map TChar t))
      (map_option ((#) TBar) (tokenise (join ''|'' (map escape_tag (u # us)) @ rest)))"
    by (simp only: tokenise_escape_tag tokenise_bar)
  also have "\<dots> = map_option ((@) (tag_tokens (t # u # us))) (tokenise rest)"
    by (simp only: "3.IH") (cases "tokenise rest", simp_all)
  finally show ?case .
qed

lemma lits_rev [simp]: "seqs (rev (rev (map Chr s))) = lits s"
  by (simp add: lits_def)

lemma parse_tag_tokens:
  "parse_tokens (tag_tokens ts @ TRParen # rest) (Frame as [] g # Frame as' ts' g' # fs, n)
     = parse_tokens rest
         (Frame as' (Group g (alts (rev as @ map lits (if ts = [] then [[]] else ts))) # ts') g' # fs, n)"
proof (induction ts arbitrary: as rule: tag_tokens.induct)
  case 1
  show ?case by (simp add: lits_def seqs_def)
next
  case (2 t)
  show ?case
    using parse_tokens_chars [of t "TRParen # rest" as "[]" g "Frame as' ts' g' # fs" n]
    by (simp add: lits_def)
next
  case (3 t u us)
  have "parse_tokens (tag_tokens (t # u # us) @ TRParen # rest) (Frame as [] g # Frame as' ts' g' # fs, n)
      = parse_tokens (TBar # tag_tokens (u # us) @ TRParen # rest)
          (Frame as (rev (map Chr t)) g # Frame as' ts' g' # fs, n)"
    using parse_tokens_chars [of t "TBar # tag_tokens (u # us) @ TRParen # rest" as "[]" g
        "Frame as' ts' g' # fs" n]
    by simp
  also have "\<dots> = parse_tokens (tag_tokens (u # us) @ TRParen # rest)
      (Frame (lits t # as) [] g # Frame as' ts' g' # fs, n)"
    by (simp add: lits_def)
  also have "\<dots> = parse_tokens rest
      (Frame as' (Group g (alts (rev (lits t # as) @ map lits (u # us))) # ts') g' # fs, n)"
    using "3.IH" [of "lits t # as"] by simp
  finally show ?case by simp
qed

definition no_quest :: "string \<Rightarrow> bool" where
  "no_quest cs = (case cs of [] \<Rightarrow> True | e # es \<Rightarrow> e \<noteq> CHR ''?'')"

lemma tokenise_lparen:
  "no_quest cs \<Longrightarrow> tokenise (CHR ''('' # cs) = map_option ((#) TLParen) (tokenise cs)"
  by (cases cs) (simp_all add: no_quest_def)

lemma no_quest_escape_chars:
  "CHR ''?'' \<in> set cls \<Longrightarrow> no_quest rest \<Longrightarrow> no_quest (escape_chars cls s @ rest)"
  by (cases s) (auto simp: no_quest_def escape_chars_def)

lemma no_quest_delimiter:
  "no_quest rest \<Longrightarrow> no_quest (escape_chars ''/'' (escapeRegExp s) @ rest)"
  unfolding escapeRegExp_def
  by (subst escape_chars_twice, simp) (rule no_quest_escape_chars, simp_all)

lemma no_quest_escapeRegExp:
  "no_quest rest \<Longrightarrow> no_quest (escapeRegExp s @ rest)"
  unfolding escapeRegExp_def
  by (rule no_quest_escape_chars, simp_all)

lemma no_quest_escape_tag:
  "no_quest rest \<Longrightarrow> no_quest (escape_tag s @ rest)"
  unfolding escape_tag_def
  by (subst escape_chars_twice, simp) (rule no_quest_escape_chars, simp_all)

lemma no_quest_join_tags:
  "no_quest rest \<Longrightarrow> no_quest (join ''|'' (map escape_tag ts) @ rest)"
proof (induction ts rule: tag_tokens.induct)
  case 1
  then show ?case by simp
next
  case (2 t)
  then show ?case by (simp add: no_quest_escape_tag)
next
  case (3 t u us)
  have "no_quest (CHR ''|'' # (join ''|'' (map escape_tag (u # us)) @ rest))"
    by (simp add: no_quest_def)
  from no_quest_escape_tag [OF this, of t] show ?case by simp
qed

lemma no_quest_simps [simp]:
  "no_quest []"
  "no_quest (c # cs) = (c \<noteq> CHR ''?'')"
  by (simp_all add: no_quest_def)

lemma tk_rparen: "tokenise (CHR '')'' # cs) = map_option ((#) TRParen) (tokenise cs)"
  by simp

lemma tk_dot: "tokenise (CHR ''.'' # cs) = map_option ((#) TDot) (tokenise cs)"
  by simp

lemma tk_caret: "tokenise (CHR ''^'' # cs) = map_option ((#) TCaret) (tokenise cs)"
  by simp

lemma tk_star: "no_quest cs \<Longrightarrow> tokenise (CHR ''*'' # cs) = map_option ((#) (TStar True)) (tokenise cs)"
  by (cases cs) simp_all

lemma tk_plus: "no_quest cs \<Longrightarrow> tokenise (CHR ''+'' # cs) = map_option ((#) (TPlus True)) (tokenise cs)"
  by (cases cs) simp_all

lemmas tk = tk_rparen tk_dot tk_caret tk_star tk_plus tokenise_bar tokenise_lparen tokenise_plain

definition single_line_tree :: "string \<Rightarrow> string list \<Rightarrow> regex" where
  "single_line_tree d ts =
     Seq (Plus True (Group 1 (lits d)))
       (Seq (Star True (Group 2 (Alt (lits '' '') (lits [CHR 0x09]))))
          (Seq (Plus True (Group 3 (alts (map lits (if ts = [] then [[]] else ts)))))
             (Seq (Group 4 (Seq (Star True Dot) Empty)) Empty)))"

lemma tokenise_single_line:
  "tokenise (''('' @ escape_chars ''/'' (escapeRegExp d) @ '')+( |'' @ [CHR 0x09] @ '')*(''
             @ join ''|'' (map escape_tag ts) @ '')+(.*)'')
   = Some (TLParen # map TChar d
           @ [TRParen, TPlus True, TLParen, TChar CHR '' '', TBar, TChar CHR 0x09, TRParen,
              TStar True, TLParen]
           @ tag_tokens ts @ [TRParen, TPlus True, TLParen, TDot, TStar True, TRParen])"
proof -
  have tail: "tokenise '')+(.*)'' = Some [TRParen, TPlus True, TLParen, TDot, TStar True, TRParen]"
    by (simp del: tokenise.simps(2) add: tk)
  have mid: "tokenise (join ''|'' (map escape_tag ts) @ '')+(.*)'')
      = Some (tag_tokens ts @ [TRParen, TPlus True, TLParen, TDot, TStar True, TRParen])"
    by (simp only: tokenise_join_tags tail) simp
  have nq: "no_quest (join ''|'' (map escape_tag ts) @ '')+(.*)'')"
    by (rule no_quest_join_tags) simp
  have pre: "tokenise ('')+( |'' @ [CHR 0x09] @ '')*('' @ join ''|'' (map escape_tag ts) @ '')+(.*)'')
      = Some ([TRParen, TPlus True, TLParen, TChar CHR '' '', TBar, TChar CHR 0x09, TRParen,
               TStar True, TLParen]
              @ tag_tokens ts @ [TRParen, TPlus True, TLParen, TDot, TStar True, TRParen])"
    using nq mid by (simp del: tokenise.simps(2) add: tk plain_char_def)
  have nq': "no_quest (escape_chars ''/'' (escapeRegExp d) @ '')+( |'' @ [CHR 0x09] @ '')*(''
      @ join ''|'' (map escape_tag ts) @ '')+(.*)'')"
    by (rule no_quest_delimiter) simp
  show ?thesis
    using nq' pre by (simp del: tokenise.simps(2) add: tokenise_lparen tokenise_delimiter)
qed

lemma RegExp_single_line:
  "RegExp_new (''('' @ escape_chars ''/'' (escapeRegExp d) @ '')+( |'' @ [CHR 0x09] @ '')*(''
               @ join ''|'' (map escape_tag ts) @ '')+(.*)'') flags
   = Some \<lparr>re_tree = single_line_tree d ts, re_groups = 4,
            re_ignoreCase = (CHR ''i'' \<in> set flags), re_multiline = (CHR ''m'' \<in> set flags)\<rparr>"
proof -
  have "parse_tokens (TLParen # map TChar d
           @ [TRParen, TPlus True, TLParen, TChar CHR '' '', TBar, TChar CHR 0x09, TRParen,
              TStar True, TLParen]
           @ tag_tokens ts @ [TRParen, TPlus True, TLParen, TDot, TStar True, TRParen])
          ([Frame [] [] 0], 1)
        = Some ([Frame [] [Group 4 (Seq (Star True Dot) Empty),
                           Plus True (Group 3 (alts (map lits (if ts = [] then [[]] else ts)))),
                           Star True (Group 2 (Alt (lits '' '') (lits [CHR 0x09]))),
                           Plus True (Group 1 (lits d))] 0], 5)"
    by (simp add: parse_tokens_chars parse_tag_tokens lits_def seqs_def)
  then show ?thesis
    unfolding RegExp_new_def tokenise_single_line
    by (simp del: tokenise.simps parse_tokens.simps add: single_line_tree_def seqs_def)
qed

section \<open>The matcher and the ways a pattern can match\<close>

text \<open>
  \<open>paths\<close> relates a state to every state the pattern can take it to, in whatever
  order the matcher tries them. The matcher is sound and complete for it: what it
  returns is what the continuation makes of one such state, and it returns something
  whenever the continuation accepts one.
\<close>

definition step_char :: "mstate \<Rightarrow> char \<Rightarrow> string \<Rightarrow> mstate" where
  "step_char x a as = x\<lparr>ms_rest := as, ms_prev := Some a\<rparr>"

inductive paths :: "bool \<Rightarrow> bool \<Rightarrow> regex \<Rightarrow> mstate \<Rightarrow> mstate \<Rightarrow> bool"
  for ic :: bool and ml :: bool where
  p_empty: "paths ic ml Empty x x"
| p_chr: "ms_rest x = a # as \<Longrightarrow> canonicalize ic a = canonicalize ic c \<Longrightarrow>
    paths ic ml (Chr c) x (x\<lparr>ms_rest := as, ms_prev := Some a\<rparr>)"
| p_dot: "ms_rest x = a # as \<Longrightarrow> \<not> is_line_terminator a \<Longrightarrow>
    paths ic ml Dot x (x\<lparr>ms_rest := as, ms_prev := Some a\<rparr>)"
| p_cls: "ms_rest x = a # as \<Longrightarrow> class_matches ic invert its a \<Longrightarrow>
    paths ic ml (Cls invert its) x (x\<lparr>ms_rest := as, ms_prev := Some a\<rparr>)"
| p_bol_start: "ms_prev x = None \<Longrightarrow> paths ic ml Bol x x"
| p_bol_line: "ms_prev x = Some p \<Longrightarrow> ml \<Longrightarrow> is_line_terminator p \<Longrightarrow> paths ic ml Bol x x"
| p_eol_end: "ms_rest x = [] \<Longrightarrow> paths ic ml Eol x x"
| p_eol_line: "ms_rest x = a # as \<Longrightarrow> ml \<Longrightarrow> is_line_terminator a \<Longrightarrow> paths ic ml Eol x x"
| p_seq: "paths ic ml r x y \<Longrightarrow> paths ic ml q y z \<Longrightarrow> paths ic ml (Seq r q) x z"
| p_alt1: "paths ic ml r x y \<Longrightarrow> paths ic ml (Alt r q) x y"
| p_alt2: "paths ic ml q x y \<Longrightarrow> paths ic ml (Alt r q) x y"
| p_group: "paths ic ml r x y \<Longrightarrow>
    paths ic ml (Group n r) x (y\<lparr>ms_caps := (ms_caps y)(n \<mapsto> consumed x y)\<rparr>)"
| p_star_stop: "paths ic ml (Star g r) x x"
| p_star_round: "paths ic ml r (clear_captures r x) y \<Longrightarrow> length (ms_rest y) < length (ms_rest x) \<Longrightarrow>
    paths ic ml (Star g r) y z \<Longrightarrow> paths ic ml (Star g r) x z"
| p_plus: "paths ic ml r (clear_captures r x) y \<Longrightarrow> paths ic ml (Star g r) y z \<Longrightarrow>
    paths ic ml (Plus g r) x z"
| p_opt_skip: "paths ic ml (Opt g r) x x"
| p_opt_take: "paths ic ml r (clear_captures r x) y \<Longrightarrow> length (ms_rest y) < length (ms_rest x) \<Longrightarrow>
    paths ic ml (Opt g r) x y"

lemma read_char_Some:
  "read_char p x k = Some z \<longleftrightarrow>
     (\<exists>a as. ms_rest x = a # as \<and> p a \<and> k (x\<lparr>ms_rest := as, ms_prev := Some a\<rparr>) = Some z)"
  by (auto simp: read_char_def split: list.splits)

lemma star_round_sound:
  assumes m: "matcher ic ml r (clear_captures r x)
        (\<lambda>y. if length (ms_rest y) < length (ms_rest x)
              then matcher ic ml (Star g r) y k else None) = Some z"
    and ih1: "\<And>z. matcher ic ml r (clear_captures r x)
        (\<lambda>y. if length (ms_rest y) < length (ms_rest x)
              then matcher ic ml (Star g r) y k else None) = Some z \<Longrightarrow>
        \<exists>y. paths ic ml r (clear_captures r x) y
           \<and> (if length (ms_rest y) < length (ms_rest x)
               then matcher ic ml (Star g r) y k else None) = Some z"
    and ih2: "\<And>y z. length (ms_rest y) < length (ms_rest x) \<Longrightarrow>
        matcher ic ml (Star g r) y k = Some z \<Longrightarrow>
        \<exists>y'. paths ic ml (Star g r) y y' \<and> k y' = Some z"
  shows "\<exists>y. paths ic ml (Star g r) x y \<and> k y = Some z"
proof -
  from ih1 [OF m] obtain y where y: "paths ic ml r (clear_captures r x) y"
    "(if length (ms_rest y) < length (ms_rest x)
      then matcher ic ml (Star g r) y k else None) = Some z"
    by blast
  from y(2) have lt: "length (ms_rest y) < length (ms_rest x)"
    and m': "matcher ic ml (Star g r) y k = Some z"
    by (auto split: if_splits)
  from ih2 [OF lt m'] obtain y' where "paths ic ml (Star g r) y y'" "k y' = Some z"
    by blast
  with y(1) lt show ?thesis by (blast intro: p_star_round)
qed

lemma opt_round_sound:
  assumes m: "matcher ic ml r (clear_captures r x)
        (\<lambda>y. if length (ms_rest y) < length (ms_rest x) then k y else None) = Some z"
    and ih1: "\<And>z. matcher ic ml r (clear_captures r x)
        (\<lambda>y. if length (ms_rest y) < length (ms_rest x) then k y else None) = Some z \<Longrightarrow>
        \<exists>y. paths ic ml r (clear_captures r x) y
           \<and> (if length (ms_rest y) < length (ms_rest x) then k y else None) = Some z"
  shows "\<exists>y. paths ic ml (Opt g r) x y \<and> k y = Some z"
proof -
  from ih1 [OF m] obtain y where y: "paths ic ml r (clear_captures r x) y"
    "(if length (ms_rest y) < length (ms_rest x) then k y else None) = Some z"
    by blast
  from y(2) have "length (ms_rest y) < length (ms_rest x)" "k y = Some z"
    by (auto split: if_splits)
  with y(1) show ?thesis by (blast intro: p_opt_take)
qed

lemma matcher_sound:
  "matcher ic ml r x k = Some z \<Longrightarrow> \<exists>y. paths ic ml r x y \<and> k y = Some z"
proof (induction ic ml r x k arbitrary: z rule: matcher.induct)
  case (1 ic ml x k)
  then show ?case by (auto intro: p_empty)
next
  case (2 ic ml c x k)
  then show ?case by (auto simp: read_char_Some intro: p_chr)
next
  case (3 ic ml x k)
  then show ?case by (auto simp: read_char_Some intro: p_dot)
next
  case (4 ic ml invert its x k)
  then show ?case by (auto simp: read_char_Some intro: p_cls)
next
  case (5 ic ml x k)
  then show ?case
    by (auto split: option.splits if_splits intro: p_bol_start p_bol_line)
next
  case (6 ic ml x k)
  then show ?case
    by (auto split: list.splits if_splits intro: p_eol_end p_eol_line)
next
  case (7 ic ml r q x k)
  from "7.prems" have "matcher ic ml r x (\<lambda>y. matcher ic ml q y k) = Some z" by simp
  from "7.IH"(2) [OF this] obtain y where y: "paths ic ml r x y" "matcher ic ml q y k = Some z"
    by blast
  from "7.IH"(1) [OF y(2)] obtain y' where "paths ic ml q y y'" "k y' = Some z" by blast
  with y(1) show ?case by (blast intro: p_seq)
next
  case (8 ic ml r q x k)
  show ?case
  proof (cases "matcher ic ml r x k")
    case None
    with "8.prems" have "matcher ic ml q x k = Some z" by simp
    from "8.IH"(2) [OF None this] show ?thesis by (blast intro: p_alt2)
  next
    case (Some z')
    with "8.prems" have "matcher ic ml r x k = Some z" by simp
    from "8.IH"(1) [OF this] show ?thesis by (blast intro: p_alt1)
  qed
next
  case (9 ic ml n r x k)
  from "9.prems"
  have "matcher ic ml r x (\<lambda>y. k (y\<lparr>ms_caps := (ms_caps y)(n \<mapsto> consumed x y)\<rparr>)) = Some z"
    by simp
  from "9.IH" [OF this] show ?case by (blast intro: p_group)
next
  case (10 ic ml greedy r x k)
  show ?case
  proof (cases greedy)
    case True
    then have g: "greedy = True" by simp
    from "10.prems" have "matcher ic ml (Star True r) x k = Some z" unfolding g .
    then consider
      (round) "matcher ic ml r (clear_captures r x)
        (\<lambda>y. if length (ms_rest y) < length (ms_rest x)
              then matcher ic ml (Star True r) y k else None) = Some z"
      | (stop) "k x = Some z"
      by (auto split: option.splits)
    then have "\<exists>y. paths ic ml (Star True r) x y \<and> k y = Some z"
    proof cases
      case round
      show ?thesis
      proof (rule star_round_sound [OF round])
        show "\<exists>y. paths ic ml r (clear_captures r x) y
           \<and> (if length (ms_rest y) < length (ms_rest x)
               then matcher ic ml (Star True r) y k else None) = Some z'"
          if "matcher ic ml r (clear_captures r x)
            (\<lambda>y. if length (ms_rest y) < length (ms_rest x)
              then matcher ic ml (Star True r) y k else None) = Some z'" for z'
          using "10.IH"(2) [OF True, unfolded g, OF that] .
        show "\<exists>y'. paths ic ml (Star True r) y y' \<and> k y' = Some z'"
          if "length (ms_rest y) < length (ms_rest x)"
            "matcher ic ml (Star True r) y k = Some z'" for y z'
          using "10.IH"(1) [OF True that(1), unfolded g, OF that(2)] .
      qed
    next
      case stop
      then show ?thesis by (blast intro: p_star_stop)
    qed
    then show ?thesis unfolding g .
  next
    case False
    then have g: "greedy = False" by simp
    from "10.prems" have "matcher ic ml (Star False r) x k = Some z" unfolding g .
    then consider
      (stop) "k x = Some z"
      | (round) "k x = None" "matcher ic ml r (clear_captures r x)
        (\<lambda>y. if length (ms_rest y) < length (ms_rest x)
              then matcher ic ml (Star False r) y k else None) = Some z"
      by (auto split: option.splits)
    then have "\<exists>y. paths ic ml (Star False r) x y \<and> k y = Some z"
    proof cases
      case round
      show ?thesis
      proof (rule star_round_sound [OF round(2)])
        show "\<exists>y. paths ic ml r (clear_captures r x) y
           \<and> (if length (ms_rest y) < length (ms_rest x)
               then matcher ic ml (Star False r) y k else None) = Some z'"
          if "matcher ic ml r (clear_captures r x)
            (\<lambda>y. if length (ms_rest y) < length (ms_rest x)
              then matcher ic ml (Star False r) y k else None) = Some z'" for z'
          using "10.IH"(4) [OF False round(1), unfolded g, OF that] .
        show "\<exists>y'. paths ic ml (Star False r) y y' \<and> k y' = Some z'"
          if "length (ms_rest y) < length (ms_rest x)"
            "matcher ic ml (Star False r) y k = Some z'" for y z'
          using "10.IH"(3) [OF False round(1) that(1), unfolded g, OF that(2)] .
      qed
    next
      case stop
      then show ?thesis by (blast intro: p_star_stop)
    qed
    then show ?thesis unfolding g .
  qed
next
  case (11 ic ml greedy r x k)
  from "11.prems"
  have "matcher ic ml r (clear_captures r x) (\<lambda>y. matcher ic ml (Star greedy r) y k) = Some z"
    by simp
  from "11.IH"(2) [OF this] obtain y where y: "paths ic ml r (clear_captures r x) y"
    "matcher ic ml (Star greedy r) y k = Some z" by blast
  from "11.IH"(1) [OF y(2)] obtain y' where "paths ic ml (Star greedy r) y y'" "k y' = Some z"
    by blast
  with y(1) show ?case by (blast intro: p_plus)
next
  case (12 ic ml greedy r x k)
  show ?case
  proof (cases greedy)
    case True
    then have g: "greedy = True" by simp
    from "12.prems" have "matcher ic ml (Opt True r) x k = Some z" unfolding g .
    then consider
      (round) "matcher ic ml r (clear_captures r x)
        (\<lambda>y. if length (ms_rest y) < length (ms_rest x) then k y else None) = Some z"
      | (stop) "k x = Some z"
      by (auto split: option.splits)
    then have "\<exists>y. paths ic ml (Opt True r) x y \<and> k y = Some z"
    proof cases
      case round
      show ?thesis
        by (rule opt_round_sound [OF round]) (rule "12.IH"(1) [OF True])
    next
      case stop
      then show ?thesis by (blast intro: p_opt_skip)
    qed
    then show ?thesis unfolding g .
  next
    case False
    then have g: "greedy = False" by simp
    from "12.prems" have "matcher ic ml (Opt False r) x k = Some z" unfolding g .
    then consider
      (stop) "k x = Some z"
      | (round) "k x = None" "matcher ic ml r (clear_captures r x)
        (\<lambda>y. if length (ms_rest y) < length (ms_rest x) then k y else None) = Some z"
      by (auto split: option.splits)
    then have "\<exists>y. paths ic ml (Opt False r) x y \<and> k y = Some z"
    proof cases
      case round
      show ?thesis
        by (rule opt_round_sound [OF round(2)]) (rule "12.IH"(2) [OF False round(1)])
    next
      case stop
      then show ?thesis by (blast intro: p_opt_skip)
    qed
    then show ?thesis unfolding g .
  qed
qed

lemma read_char_ok:
  "ms_rest x = a # as \<Longrightarrow> p a \<Longrightarrow> read_char p x k = k (x\<lparr>ms_rest := as, ms_prev := Some a\<rparr>)"
  by (simp add: read_char_def)

lemma star_stop_complete:
  assumes "k x \<noteq> None"
  shows "matcher ic ml (Star g r) x k \<noteq> None"
proof (cases g)
  case True
  then have g: "g = True" by simp
  show ?thesis using assms unfolding g by (auto split: option.splits)
next
  case False
  then have g: "g = False" by simp
  show ?thesis using assms unfolding g by (auto split: option.splits)
qed

lemma star_round_complete:
  assumes "matcher ic ml r (clear_captures r x)
      (\<lambda>y. if length (ms_rest y) < length (ms_rest x)
            then matcher ic ml (Star g r) y k else None) \<noteq> None"
  shows "matcher ic ml (Star g r) x k \<noteq> None"
proof (cases g)
  case True
  then have g: "g = True" by simp
  show ?thesis using assms unfolding g by (auto split: option.splits)
next
  case False
  then have g: "g = False" by simp
  show ?thesis using assms unfolding g by (auto split: option.splits)
qed

lemma opt_stop_complete:
  assumes "k x \<noteq> None"
  shows "matcher ic ml (Opt g r) x k \<noteq> None"
proof (cases g)
  case True
  then have g: "g = True" by simp
  show ?thesis using assms unfolding g by (auto split: option.splits)
next
  case False
  then have g: "g = False" by simp
  show ?thesis using assms unfolding g by (auto split: option.splits)
qed

lemma opt_round_complete:
  assumes "matcher ic ml r (clear_captures r x)
      (\<lambda>y. if length (ms_rest y) < length (ms_rest x) then k y else None) \<noteq> None"
  shows "matcher ic ml (Opt g r) x k \<noteq> None"
proof (cases g)
  case True
  then have g: "g = True" by simp
  show ?thesis using assms unfolding g by (auto split: option.splits)
next
  case False
  then have g: "g = False" by simp
  show ?thesis using assms unfolding g by (auto split: option.splits)
qed

lemma matcher_complete:
  "paths ic ml r x y \<Longrightarrow> k y \<noteq> None \<Longrightarrow> matcher ic ml r x k \<noteq> None"
proof (induction arbitrary: k rule: paths.induct)
  case (p_empty x)
  then show ?case by simp
next
  case (p_chr x a as c)
  then show ?case by (simp add: read_char_ok)
next
  case (p_dot x a as)
  then show ?case by (simp add: read_char_ok)
next
  case (p_cls x a as invert its)
  then show ?case by (simp add: read_char_ok)
next
  case (p_bol_start x)
  then show ?case by simp
next
  case (p_bol_line x p)
  then show ?case by simp
next
  case (p_eol_end x)
  then show ?case by simp
next
  case (p_eol_line x a as)
  then show ?case by simp
next
  case (p_seq r x y q z)
  from p_seq.IH(2) [of k, OF p_seq.prems] have "matcher ic ml q y k \<noteq> None" .
  from p_seq.IH(1) [of "\<lambda>y. matcher ic ml q y k", OF this] show ?case by simp
next
  case (p_alt1 r x y q)
  from p_alt1.IH [of k, OF p_alt1.prems] show ?case by (auto split: option.splits)
next
  case (p_alt2 q x y r)
  from p_alt2.IH [of k, OF p_alt2.prems] show ?case by (auto split: option.splits)
next
  case (p_group r x y n)
  from p_group.IH [of "\<lambda>y. k (y\<lparr>ms_caps := (ms_caps y)(n \<mapsto> consumed x y)\<rparr>)"] p_group.prems
  show ?case by simp
next
  case (p_star_stop g r x)
  then show ?case by (rule star_stop_complete)
next
  case (p_star_round r x y g z)
  from p_star_round.IH(2) [of k, OF p_star_round.prems]
  have "matcher ic ml (Star g r) y k \<noteq> None" .
  with p_star_round.hyps(2)
  have "(if length (ms_rest y) < length (ms_rest x) then matcher ic ml (Star g r) y k else None) \<noteq> None"
    by simp
  from p_star_round.IH(1)
    [of "\<lambda>y. if length (ms_rest y) < length (ms_rest x) then matcher ic ml (Star g r) y k else None",
     OF this]
  show ?case by (rule star_round_complete)
next
  case (p_plus r x y g z)
  from p_plus.IH(2) [of k, OF p_plus.prems] have "matcher ic ml (Star g r) y k \<noteq> None" .
  from p_plus.IH(1) [of "\<lambda>y. matcher ic ml (Star g r) y k", OF this] show ?case by simp
next
  case (p_opt_skip g r x)
  then show ?case by (rule opt_stop_complete)
next
  case (p_opt_take r x y g)
  from p_opt_take.hyps(2) p_opt_take.prems
  have "(if length (ms_rest y) < length (ms_rest x) then k y else None) \<noteq> None"
    by simp
  from p_opt_take.IH
    [of "\<lambda>y. if length (ms_rest y) < length (ms_rest x) then k y else None", OF this]
  show ?case by (rule opt_round_complete)
qed

text \<open>The rest of the line.\<close>

definition to_eol :: "mstate \<Rightarrow> mstate" where
  "to_eol x =
     (case takeWhile (\<lambda>c. \<not> is_line_terminator c) (ms_rest x) of
        [] \<Rightarrow> x
      | a # as \<Rightarrow> x\<lparr>ms_rest := dropWhile (\<lambda>c. \<not> is_line_terminator c) (ms_rest x),
                     ms_prev := Some (last (a # as))\<rparr>)"

lemma clear_captures_none [simp]: "groups_of r = [] \<Longrightarrow> clear_captures r x = x"
  by (simp add: clear_captures_def)

lemma dropWhile_takeWhile_Nil: "takeWhile P xs = [] \<Longrightarrow> dropWhile P xs = xs"
  by (cases xs) (auto split: if_splits)

lemma to_eol_step:
  "\<not> is_line_terminator a \<Longrightarrow>
   to_eol (x\<lparr>ms_rest := as, ms_prev := Some a\<rparr>) = to_eol (x\<lparr>ms_rest := a # as\<rparr>)"
  by (auto simp: to_eol_def dropWhile_takeWhile_Nil split: list.splits)

lemma dot_star_greedy:
  assumes "\<And>y. k y \<noteq> None"
  shows "matcher ic ml (Star True Dot) x k = k (to_eol x)"
proof (induction "ms_rest x" arbitrary: x)
  case Nil
  then show ?case by (simp add: read_char_def to_eol_def)
next
  case (Cons a as)
  show ?case
  proof (cases "is_line_terminator a")
    case True
    with Cons.hyps(2) [symmetric] show ?thesis
      by (simp add: read_char_def to_eol_def)
  next
    case False
    let ?x' = "x\<lparr>ms_rest := as, ms_prev := Some a\<rparr>"
    have "as = ms_rest ?x'" by simp
    from Cons.hyps(1) [OF this] have ih: "matcher ic ml (Star True Dot) ?x' k = k (to_eol ?x')" .
    have x: "x\<lparr>ms_rest := a # as\<rparr> = x" using Cons.hyps(2) by simp
    obtain z where z: "k (to_eol ?x') = Some z" using assms [of "to_eol ?x'"] by blast
    show ?thesis
      using False Cons.hyps(2) [symmetric] ih z to_eol_step [where a = a and x = x and as = as] x
      by (simp add: read_char_def)
  qed
qed

lemma to_eol_rest:
  "ms_rest (to_eol x) = dropWhile (\<lambda>c. \<not> is_line_terminator c) (ms_rest x)"
  by (auto simp: to_eol_def dropWhile_takeWhile_Nil split: list.splits)

lemma to_eol_caps [simp]: "ms_caps (to_eol x) = ms_caps x"
  by (simp add: to_eol_def split: list.splits)

inductive_cases paths_EmptyE: "paths ic ml Empty x y"
inductive_cases paths_ChrE: "paths ic ml (Chr c) x y"
inductive_cases paths_SeqE: "paths ic ml (Seq r q) x y"
inductive_cases paths_AltE: "paths ic ml (Alt r q) x y"
inductive_cases paths_GroupE: "paths ic ml (Group n r) x y"
inductive_cases paths_PlusE: "paths ic ml (Plus g r) x y"

lemma clear_captures_rest [simp]: "ms_rest (clear_captures r x) = ms_rest x"
  by (simp add: clear_captures_def)

lemma clear_captures_prev [simp]: "ms_prev (clear_captures r x) = ms_prev x"
  by (simp add: clear_captures_def)

lemma paths_suffix:
  "paths ic ml r x y \<Longrightarrow> \<exists>pre. ms_rest x = pre @ ms_rest y"
proof (induction rule: paths.induct)
  case (p_chr x a as c)
  then have "ms_rest x = [a] @ ms_rest (x\<lparr>ms_rest := as, ms_prev := Some a\<rparr>)" by simp
  then show ?case by (rule exI)
next
  case (p_dot x a as)
  then have "ms_rest x = [a] @ ms_rest (x\<lparr>ms_rest := as, ms_prev := Some a\<rparr>)" by simp
  then show ?case by (rule exI)
next
  case (p_cls x a as invert its)
  then have "ms_rest x = [a] @ ms_rest (x\<lparr>ms_rest := as, ms_prev := Some a\<rparr>)" by simp
  then show ?case by (rule exI)
next
  case (p_seq r x y q z)
  then obtain p1 p2 where "ms_rest x = p1 @ ms_rest y" "ms_rest y = p2 @ ms_rest z" by blast
  then have "ms_rest x = (p1 @ p2) @ ms_rest z" by simp
  then show ?case by (rule exI)
next
  case (p_group r x y n)
  then show ?case by simp
next
  case (p_star_round r x y g z)
  then obtain p1 p2 where "ms_rest x = p1 @ ms_rest y" "ms_rest y = p2 @ ms_rest z" by auto
  then have "ms_rest x = (p1 @ p2) @ ms_rest z" by simp
  then show ?case by (rule exI)
next
  case (p_plus r x y g z)
  then obtain p1 p2 where "ms_rest x = p1 @ ms_rest y" "ms_rest y = p2 @ ms_rest z" by auto
  then have "ms_rest x = (p1 @ p2) @ ms_rest z" by simp
  then show ?case by (rule exI)
next
  case (p_opt_take r x y g)
  then show ?case by simp
qed (simp_all)

lemma consumed_append:
  "ms_rest x = pre @ ms_rest y \<Longrightarrow> consumed x y = pre"
  by (simp add: consumed_def)

lemma lits_simps [simp]:
  "lits [] = Empty"
  "lits (c # cs) = Seq (Chr c) (lits cs)"
  by (simp_all add: lits_def seqs_def)

lemma paths_lits:
  "paths ic ml (lits d) x y \<Longrightarrow>
   \<exists>d'. ms_rest x = d' @ ms_rest y \<and> map (canonicalize ic) d' = map (canonicalize ic) d
        \<and> ms_caps y = ms_caps x"
proof (induction d arbitrary: x)
  case Nil
  then show ?case by (auto elim: paths_EmptyE)
next
  case (Cons c d)
  from Cons.prems obtain u where u: "paths ic ml (Chr c) x u" "paths ic ml (lits d) u y"
    by (auto elim: paths_SeqE)
  from u(1) obtain a as where a: "ms_rest x = a # as" "canonicalize ic a = canonicalize ic c"
    "u = x\<lparr>ms_rest := as, ms_prev := Some a\<rparr>"
    by (auto elim: paths_ChrE)
  from Cons.IH [OF u(2)] obtain d' where d': "ms_rest u = d' @ ms_rest y"
    "map (canonicalize ic) d' = map (canonicalize ic) d" "ms_caps y = ms_caps u"
    by blast
  from a d' have "ms_rest x = (a # d') @ ms_rest y
      \<and> map (canonicalize ic) (a # d') = map (canonicalize ic) (c # d)
      \<and> ms_caps y = ms_caps x"
    by simp
  then show ?case by blast
qed

text \<open>A pattern can take the input from one rest to another, whatever the state.\<close>

definition can :: "bool \<Rightarrow> bool \<Rightarrow> regex \<Rightarrow> string \<Rightarrow> string \<Rightarrow> bool" where
  "can ic ml r rs rs' = (\<forall>x. ms_rest x = rs \<longrightarrow> (\<exists>y. paths ic ml r x y \<and> ms_rest y = rs'))"

lemma can_lits:
  "map (canonicalize ic) d' = map (canonicalize ic) d \<Longrightarrow> can ic ml (lits d) (d' @ rs) rs"
proof (induction d arbitrary: d')
  case Nil
  then show ?case by (auto simp: can_def intro: p_empty)
next
  case (Cons c d)
  from Cons.prems obtain a e where d': "d' = a # e" "canonicalize ic a = canonicalize ic c"
    "map (canonicalize ic) e = map (canonicalize ic) d"
    by (cases d') auto
  show ?case
    unfolding can_def
  proof (intro allI impI)
    fix x :: mstate
    assume x: "ms_rest x = d' @ rs"
    let ?u = "x\<lparr>ms_rest := e @ rs, ms_prev := Some a\<rparr>"
    from x d' have "paths ic ml (Chr c) x ?u" by (auto intro: p_chr)
    moreover from Cons.IH [OF d'(3), unfolded can_def, rule_format, of ?u]
    obtain y where "paths ic ml (lits d) ?u y" "ms_rest y = rs"
      by auto
    ultimately show "\<exists>y. paths ic ml (lits (c # d)) x y \<and> ms_rest y = rs"
      by (auto intro: p_seq)
  qed
qed

lemma canI:
  "(\<And>x. ms_rest x = a \<Longrightarrow> \<exists>y. paths ic ml r x y \<and> ms_rest y = b) \<Longrightarrow> can ic ml r a b"
  by (simp add: can_def)

lemma canD:
  "can ic ml r a b \<Longrightarrow> ms_rest x = a \<Longrightarrow> \<exists>y. paths ic ml r x y \<and> ms_rest y = b"
  by (simp add: can_def)

lemma can_seq:
  assumes "can ic ml r a b" and "can ic ml q b c"
  shows "can ic ml (Seq r q) a c"
proof (rule canI)
  fix x :: mstate
  assume "ms_rest x = a"
  from canD [OF assms(1) this] obtain y where y: "paths ic ml r x y" "ms_rest y = b" by auto
  from canD [OF assms(2) y(2)] obtain z where z: "paths ic ml q y z" "ms_rest z = c" by auto
  from p_seq [OF y(1) z(1)] z(2) show "\<exists>z. paths ic ml (Seq r q) x z \<and> ms_rest z = c" by auto
qed

lemma can_alt1:
  assumes "can ic ml r a b"
  shows "can ic ml (Alt r q) a b"
proof (rule canI)
  fix x :: mstate
  assume "ms_rest x = a"
  from canD [OF assms this] obtain y where y: "paths ic ml r x y" "ms_rest y = b" by auto
  from p_alt1 [OF y(1)] y(2) show "\<exists>y. paths ic ml (Alt r q) x y \<and> ms_rest y = b" by auto
qed

lemma can_group:
  assumes "can ic ml r a b"
  shows "can ic ml (Group n r) a b"
proof (rule canI)
  fix x :: mstate
  assume "ms_rest x = a"
  from canD [OF assms this] obtain y where y: "paths ic ml r x y" "ms_rest y = b" by auto
  from p_group [OF y(1), of n] y(2)
  show "\<exists>y. paths ic ml (Group n r) x y \<and> ms_rest y = b"
    by (intro exI [of _ "y\<lparr>ms_caps := (ms_caps y)(n \<mapsto> consumed x y)\<rparr>"]) simp
qed

lemma can_plus_once:
  assumes "can ic ml r a b"
  shows "can ic ml (Plus g r) a b"
proof (rule canI)
  fix x :: mstate
  assume "ms_rest x = a"
  then have "ms_rest (clear_captures r x) = a" by simp
  from canD [OF assms this] obtain y where y: "paths ic ml r (clear_captures r x) y" "ms_rest y = b"
    by auto
  from p_plus [OF y(1) p_star_stop] y(2)
  show "\<exists>y. paths ic ml (Plus g r) x y \<and> ms_rest y = b" by auto
qed

lemma can_star_once:
  assumes "can ic ml r a b" and "length b < length a"
  shows "can ic ml (Star g r) a b"
proof (rule canI)
  fix x :: mstate
  assume x: "ms_rest x = a"
  then have "ms_rest (clear_captures r x) = a" by simp
  from canD [OF assms(1) this] obtain y where y: "paths ic ml r (clear_captures r x) y" "ms_rest y = b"
    by auto
  from y(2) x assms(2) have "length (ms_rest y) < length (ms_rest x)" by simp
  from p_star_round [OF y(1) this p_star_stop] y(2)
  show "\<exists>y. paths ic ml (Star g r) x y \<and> ms_rest y = b" by auto
qed


lemma can_matcher:
  assumes "can ic ml r (ms_rest x) rs" and "\<And>y. k y \<noteq> None"
  shows "matcher ic ml r x k \<noteq> None"
proof -
  from canD [OF assms(1) refl] obtain y where "paths ic ml r x y" by auto
  from matcher_complete [OF this assms(2)] show ?thesis .
qed

lemma lower_upper: "lower_char (upper_char a) = lower_char a"
proof -
  define n :: nat where "n = of_char a"
  have n: "n < 256" by (simp add: n_def)
  have a: "a = char_of n" by (simp add: n_def)
  have m: "of_char (char_of (n - 32) :: char) = n - 32" if "32 \<le> n"
    using n that by (simp add: mod_if)
  show ?thesis
  proof (cases "(97 \<le> n \<and> n \<le> 122) \<or> (224 \<le> n \<and> n \<le> 254 \<and> n \<noteq> 247)")
    case True
    then have u: "upper_char a = char_of (n - 32)"
      by (simp add: upper_char_def code_unit_def n_def Let_def)
    from True have "32 \<le> n" by arith
    note m' = m [OF this]
    from True have "lower_char (char_of (n - 32)) = char_of (n - 32 + 32)"
      unfolding lower_char_def code_unit_def Let_def m' by (auto split: if_splits)
    moreover from True have "n - 32 + 32 = n" by arith
    moreover from True have "lower_char a = a"
      by (auto simp: lower_char_def code_unit_def n_def [symmetric] Let_def)
    ultimately show ?thesis using u a by simp
  next
    case False
    then have "upper_char a = a"
      by (auto simp: upper_char_def code_unit_def n_def [symmetric] Let_def)
    then show ?thesis by simp
  qed
qed

lemma canonicalize_True [simp]: "canonicalize True = upper_char"
  by (rule ext) (simp add: canonicalize_def)

lemma canonicalize_False [simp]: "canonicalize False = (\<lambda>c. c)"
  by (rule ext) (simp add: canonicalize_def)

lemma canonical_lower:
  "map upper_char s = map upper_char t \<Longrightarrow> toLowerCase s = toLowerCase t"
proof (induction s arbitrary: t)
  case Nil
  then show ?case by (simp add: toLowerCase_def)
next
  case (Cons a s)
  then obtain b u where t: "t = b # u" "upper_char a = upper_char b"
    "map upper_char s = map upper_char u"
    by (cases t) auto
  from t(2) have "lower_char a = lower_char b"
    using lower_upper [of a] lower_upper [of b] by simp
  with Cons.IH [OF t(3)] t(1) show ?case by (simp add: toLowerCase_def)
qed

section \<open>Matches of the single-line pattern\<close>

definition slA :: "string \<Rightarrow> regex" where
  "slA d = Plus True (Group 1 (lits d))"

definition slB :: regex where
  "slB = Star True (Group 2 (Alt (lits '' '') (lits [CHR 0x09])))"

definition slC :: "string list \<Rightarrow> regex" where
  "slC ts = Plus True (Group 3 (alts (map lits (if ts = [] then [[]] else ts))))"

definition slABC :: "string \<Rightarrow> string list \<Rightarrow> regex" where
  "slABC d ts = Seq (slA d) (Seq slB (slC ts))"

lemma single_line_tree_parts:
  "single_line_tree d ts = Seq (slA d) (Seq slB (Seq (slC ts) (Seq (Group 4 (Seq (Star True Dot) Empty)) Empty)))"
  by (simp add: single_line_tree_def slA_def slB_def slC_def)

definition finish :: "mstate \<Rightarrow> mstate" where
  "finish y = (to_eol y)\<lparr>ms_caps := (ms_caps y)(4 \<mapsto> consumed y (to_eol y))\<rparr>"

lemma rest_of_line:
  "matcher ic ml (Group 4 (Seq (Star True Dot) Empty)) y (\<lambda>y'. matcher ic ml Empty y' Some) = Some (finish y)"
proof -
  have "matcher ic ml (Star True Dot) y
          (\<lambda>u. Some (u\<lparr>ms_caps := (ms_caps u)(4 \<mapsto> consumed y u)\<rparr>))
        = Some ((to_eol y)\<lparr>ms_caps := (ms_caps (to_eol y))(4 \<mapsto> consumed y (to_eol y))\<rparr>)"
    by (rule dot_star_greedy) simp
  then show ?thesis
    by (simp del: matcher.simps(10) add: finish_def)
qed

lemma single_line_matcher:
  "matcher ic ml (single_line_tree d ts) x Some
     = matcher ic ml (slABC d ts) x (\<lambda>y. Some (finish y))"
  unfolding single_line_tree_parts slABC_def
  by (simp only: matcher.simps(7) rest_of_line)

lemma single_line_sound:
  assumes "matcher ic ml (single_line_tree d ts) x Some = Some z"
  shows "\<exists>y. paths ic ml (slABC d ts) x y \<and> z = finish y"
  using matcher_sound [of ic ml "slABC d ts" x "\<lambda>y. Some (finish y)" z] assms
  by (auto simp only: single_line_matcher)

lemma single_line_complete:
  assumes "can ic ml (slABC d ts) (ms_rest x) rs"
  shows "matcher ic ml (single_line_tree d ts) x Some \<noteq> None"
  unfolding single_line_matcher
  by (rule can_matcher [OF assms]) simp

text \<open>What a path through the first three parts tells.\<close>

lemma slA_path:
  assumes "paths ic ml (slA d) x y"
  shows "\<exists>d' more p. ms_rest x = d' @ more \<and> map (canonicalize ic) d' = map (canonicalize ic) d
           \<and> more = p @ ms_rest y"
proof -
  from assms obtain u where u: "paths ic ml (Group 1 (lits d)) (clear_captures (Group 1 (lits d)) x) u"
    "paths ic ml (Star True (Group 1 (lits d))) u y"
    unfolding slA_def by (auto elim: paths_PlusE)
  from u(1) obtain v where v: "paths ic ml (lits d) (clear_captures (Group 1 (lits d)) x) v"
    "ms_rest u = ms_rest v"
    by (auto elim: paths_GroupE)
  from paths_lits [OF v(1)] obtain d' where d': "ms_rest x = d' @ ms_rest v"
    "map (canonicalize ic) d' = map (canonicalize ic) d"
    by auto
  from paths_suffix [OF u(2)] obtain p where "ms_rest u = p @ ms_rest y" by auto
  with d' v(2) have "ms_rest x = d' @ ms_rest v \<and> map (canonicalize ic) d' = map (canonicalize ic) d
      \<and> ms_rest v = p @ ms_rest y"
    by simp
  then show ?thesis by blast
qed

lemma alts_lits_path:
  assumes "paths ic ml (alts (map lits ts)) x y" and "ts \<noteq> []"
  shows "\<exists>t \<in> set ts. \<exists>t'. ms_rest x = t' @ ms_rest y \<and> map (canonicalize ic) t' = map (canonicalize ic) t"
  using assms
proof (induction ts rule: induct_list012)
  case 1
  then show ?case by simp
next
  case (2 t)
  then show ?case using paths_lits [of ic ml t x y] by auto
next
  case (3 t u us)
  from "3.prems"(1) have "paths ic ml (lits t) x y \<or> paths ic ml (alts (map lits (u # us))) x y"
    by (auto elim: paths_AltE)
  then show ?case
  proof
    assume "paths ic ml (lits t) x y"
    from paths_lits [OF this] show ?thesis by auto
  next
    assume "paths ic ml (alts (map lits (u # us))) x y"
    from "3.IH"(2) [OF this] show ?thesis by auto
  qed
qed

definition tag_token :: "bool \<Rightarrow> string list \<Rightarrow> string option \<Rightarrow> bool" where
  "tag_token ic ts c =
     (\<exists>tok t. c = Some tok \<and> t \<in> set ts \<and> map (canonicalize ic) tok = map (canonicalize ic) t)"

lemma group_alts_path:
  assumes "paths ic ml (Group n (alts (map lits ts))) x y" and "ts \<noteq> []"
  shows "tag_token ic ts (ms_caps y n)"
proof -
  from assms(1) obtain v where v: "paths ic ml (alts (map lits ts)) x v"
    "y = v\<lparr>ms_caps := (ms_caps v)(n \<mapsto> consumed x v)\<rparr>"
    by (auto elim: paths_GroupE)
  from alts_lits_path [OF v(1) assms(2)] obtain t t' where t: "t \<in> set ts"
    "ms_rest x = t' @ ms_rest v" "map (canonicalize ic) t' = map (canonicalize ic) t"
    by auto
  from consumed_append [OF t(2)] v(2) t(1,3) show ?thesis
    by (auto simp: tag_token_def)
qed

lemma star_group_alts_path:
  assumes "paths ic ml r x y" and "r = Star g (Group n (alts (map lits ts)))" and "ts \<noteq> []"
    and "tag_token ic ts (ms_caps x n)"
  shows "tag_token ic ts (ms_caps y n)"
  using assms
proof (induction rule: paths.induct)
  case (p_star_round r' x u g' z)
  from p_star_round.prems(1) have r': "r' = Group n (alts (map lits ts))" by simp
  from p_star_round.hyps(1) [unfolded r'] have "tag_token ic ts (ms_caps u n)"
    by (rule group_alts_path) (rule p_star_round.prems(2))
  from p_star_round.IH(2) [OF p_star_round.prems(1,2) this] show ?case .
qed simp_all

lemma slC_path:
  assumes "paths ic ml (slC ts) x y"
  shows "tag_token ic (if ts = [] then [[]] else ts) (ms_caps y 3)"
proof -
  let ?ts = "if ts = [] then [[]] else ts"
  let ?G = "Group 3 (alts (map lits ?ts))"
  have ne: "?ts \<noteq> []" by simp
  from assms obtain u where u: "paths ic ml ?G (clear_captures ?G x) u"
    "paths ic ml (Star True ?G) u y"
    unfolding slC_def by (auto elim: paths_PlusE)
  from group_alts_path [OF u(1) ne] have "tag_token ic ?ts (ms_caps u 3)" .
  from star_group_alts_path [OF u(2) refl ne this] show ?thesis .
qed

inductive_cases paths_slABC: "paths ic ml (Seq a (Seq b c)) x y"

lemma slABC_path:
  assumes "paths ic ml (slABC d ts) x y"
  shows "(\<exists>d' more p. ms_rest x = d' @ more \<and> map (canonicalize ic) d' = map (canonicalize ic) d
           \<and> more = p @ ms_rest y)
        \<and> tag_token ic (if ts = [] then [[]] else ts) (ms_caps y 3)"
proof -
  from assms obtain u v where uv: "paths ic ml (slA d) x u" "paths ic ml slB u v" "paths ic ml (slC ts) v y"
    unfolding slABC_def by (auto elim!: paths_SeqE)
  from slA_path [OF uv(1)] obtain d' more p where d': "ms_rest x = d' @ more"
    "map (canonicalize ic) d' = map (canonicalize ic) d" "more = p @ ms_rest u"
    by auto
  from paths_suffix [OF uv(2)] obtain p1 where "ms_rest u = p1 @ ms_rest v" by auto
  moreover from paths_suffix [OF uv(3)] obtain p2 where "ms_rest v = p2 @ ms_rest y" by auto
  ultimately have "more = (p @ p1 @ p2) @ ms_rest y" using d'(3) by simp
  with d'(1,2) slC_path [OF uv(3)] show ?thesis by blast
qed

lemma exec_Some:
  "exec re s i = Some m \<Longrightarrow>
   \<exists>z. matcher (re_ignoreCase re) (re_multiline re) (re_tree re) (start_state s (m_index m)) Some = Some z
     \<and> m_text m = consumed (start_state s (m_index m)) z
     \<and> m_caps m = map (ms_caps z) [1 ..< Suc (re_groups re)]
     \<and> i \<le> m_index m \<and> m_index m \<le> length s"
proof (induction re s i rule: exec.induct)
  case (1 re s i)
  show ?case
  proof (cases "matcher (re_ignoreCase re) (re_multiline re) (re_tree re) (start_state s i) Some")
    case None
    with "1.prems" have le: "\<not> length s < i" and rec: "exec re s (Suc i) = Some m"
      by (auto simp: exec.simps [of re s i] split: if_splits)
    from "1.IH" [OF le None rec] show ?thesis by auto
  next
    case (Some z)
    with "1.prems" have "i \<le> length s"
      and "m = \<lparr>m_index = i, m_text = consumed (start_state s i) z,
                   m_caps = map (ms_caps z) [1 ..< Suc (re_groups re)]\<rparr>"
      by (auto simp: exec.simps [of re s i] split: if_splits)
    with Some show ?thesis by auto
  qed
qed

lemma exec_here:
  "i \<le> length s \<Longrightarrow>
   matcher (re_ignoreCase re) (re_multiline re) (re_tree re) (start_state s i) Some = Some z \<Longrightarrow>
   exec re s i = Some \<lparr>m_index = i, m_text = consumed (start_state s i) z,
                        m_caps = map (ms_caps z) [1 ..< Suc (re_groups re)]\<rparr>"
  by (simp add: exec.simps [of re s i])

lemma exec_at_end:
  "matcher (re_ignoreCase re) (re_multiline re) (re_tree re) (start_state s (length s)) Some = None \<Longrightarrow>
   exec re s (length s) = None"
  by (simp add: exec.simps [of re s "length s"] exec.simps [of re s "Suc (length s)"])

lemma start_state_rest [simp]: "ms_rest (start_state s i) = drop i s"
  by (simp add: start_state_def)

lemma finish_rest: "ms_rest (finish y) = dropWhile (\<lambda>c. \<not> is_line_terminator c) (ms_rest y)"
  by (simp add: finish_def to_eol_rest)

lemma finish_caps: "n \<noteq> 4 \<Longrightarrow> ms_caps (finish y) n = ms_caps y n"
  by (simp add: finish_def)

definition single_line_regex :: "string \<Rightarrow> string list \<Rightarrow> bool \<Rightarrow> RegExp" where
  "single_line_regex d ts ml =
     \<lparr>re_tree = single_line_tree d ts, re_groups = 4, re_ignoreCase = True, re_multiline = ml\<rparr>"

lemma toLowerCase_TODO: "toLowerCase ''TODO'' = ''todo''"
  by code_simp

lemma one_comment_first:
  assumes "d \<noteq> []"
  shows "\<exists>m tok. exec (single_line_regex d [''TODO''] ml) (d @ '' TODO: x'') 0 = Some m
     \<and> m_index m = 0 \<and> m_text m = d @ '' TODO: x''
     \<and> capture m 3 = Some tok \<and> toLowerCase tok = ''todo''"
proof -
  let ?s = "d @ '' TODO: x''"
  let ?re = "single_line_regex d [''TODO''] ml"
  let ?x = "start_state ?s 0"
  have A: "can True ml (slA d) ?s '' TODO: x''"
    unfolding slA_def by (intro can_plus_once can_group can_lits) simp
  have B: "can True ml slB '' TODO: x'' ''TODO: x''"
    unfolding slB_def
    using can_lits [of True "'' ''" "'' ''" ml "''TODO: x''"]
    by (intro can_star_once can_group can_alt1) simp_all
  have C: "can True ml (slC [''TODO'']) ''TODO: x'' '': x''"
    unfolding slC_def
    using can_lits [of True "''TODO''" "''TODO''" ml "'': x''"]
    by (intro can_plus_once can_group) simp
  have "can True ml (slABC d [''TODO'']) (ms_rest ?x) '': x''"
    unfolding slABC_def using A B C by (auto intro: can_seq)
  from single_line_complete [OF this]
  obtain z where z: "matcher True ml (single_line_tree d [''TODO'']) ?x Some = Some z"
    by auto
  from single_line_sound [OF z] obtain y where y: "paths True ml (slABC d [''TODO'']) ?x y"
    "z = finish y" by auto
  from slABC_path [OF y(1)] obtain d' more p where d': "?s = d' @ more"
    "map (canonicalize True) d' = map (canonicalize True) d" "more = p @ ms_rest y"
    and tk: "tag_token True [''TODO''] (ms_caps y 3)"
    by auto
  from d'(2) have "length d' = length d" by (metis length_map)
  with d'(1) have "more = '' TODO: x''" by (metis append_eq_append_conv)
  with d'(3) have "set (ms_rest y) \<subseteq> set '' TODO: x''" by (metis set_append Un_upper2)
  then have "\<forall>c \<in> set (ms_rest y). \<not> is_line_terminator c"
    by (auto simp: is_line_terminator_def code_unit_def)
  then have "dropWhile (\<lambda>c. \<not> is_line_terminator c) (ms_rest y) = []" by simp
  with y(2) have rest: "ms_rest z = []" by (simp add: finish_rest)
  then have whole: "consumed ?x z = ?s" by (simp add: consumed_def)
  from tk obtain tok where tok: "ms_caps y 3 = Some tok" "map upper_char tok = map upper_char ''TODO''"
    by (auto simp: tag_token_def)
  from canonical_lower [OF tok(2)] have low: "toLowerCase tok = ''todo''"
    by (simp only: toLowerCase_TODO)
  from y(2) tok(1) have cap: "ms_caps z 3 = Some tok" by (simp add: finish_caps)
  from z have "exec ?re ?s 0 = Some \<lparr>m_index = 0, m_text = consumed ?x z,
      m_caps = map (ms_caps z) [1 ..< Suc 4]\<rparr>"
    using exec_here [of 0 ?s ?re z] by (simp add: single_line_regex_def)
  moreover have "[1 ..< Suc 4] = [1, 2, 3, 4::nat]" by (simp add: upt_rec)
  ultimately show ?thesis using whole cap low by (simp add: capture_def)
qed

lemma no_comment_in_nothing:
  assumes "d \<noteq> []"
  shows "matcher True ml (single_line_tree d ts) (start_state s (length s)) Some = None"
proof (rule ccontr)
  assume "matcher True ml (single_line_tree d ts) (start_state s (length s)) Some \<noteq> None"
  then obtain z where "matcher True ml (single_line_tree d ts) (start_state s (length s)) Some = Some z"
    by auto
  from single_line_sound [OF this] obtain y where "paths True ml (slABC d ts) (start_state s (length s)) y"
    by auto
  from slABC_path [OF this] obtain d' where "map (canonicalize True) d' = map (canonicalize True) d"
    "d' = []" by auto
  with assms show False by simp
qed

lemma one_comment_last:
  assumes "d \<noteq> []"
  shows "exec (single_line_regex d ts ml) s (length s) = None"
  using exec_at_end [of "single_line_regex d ts ml" s] no_comment_in_nothing [OF assms, of ml ts s]
  by (simp add: single_line_regex_def)

lemma one_comment_loop:
  assumes "d \<noteq> []"
  shows "\<exists>m tok. exec_loop (single_line_regex d [''TODO''] ml) (d @ '' TODO: x'') body 0
       = (case body m of Inl e \<Rightarrow> Inl e | Inr ds \<Rightarrow> Inr ds)
     \<and> m_index m = 0 \<and> m_text m = d @ '' TODO: x''
     \<and> capture m 3 = Some tok \<and> toLowerCase tok = ''todo''"
proof -
  from one_comment_first [OF assms, of ml] obtain m tok where
    m: "exec (single_line_regex d [''TODO''] ml) (d @ '' TODO: x'') 0 = Some m"
      "m_index m = 0" "m_text m = d @ '' TODO: x''"
      "capture m 3 = Some tok" "toLowerCase tok = ''todo''"
    by blast
  have e: "m_end m = length (d @ '' TODO: x'')" using m(2,3) by (simp add: m_end_def)
  have "exec_loop (single_line_regex d [''TODO''] ml) (d @ '' TODO: x'') body (m_end m) = Inr []"
    unfolding e using one_comment_last [OF assms, of "[''TODO'']" ml "d @ '' TODO: x''"]
    by (subst exec_loop.simps) simp
  then have "exec_loop (single_line_regex d [''TODO''] ml) (d @ '' TODO: x'') body 0
       = (case body m of Inl e \<Rightarrow> Inl e | Inr ds \<Rightarrow> Inr ds)"
    using m(1) e by (subst exec_loop.simps) (simp split: sum.splits)
  with m show ?thesis by blast
qed

lemma position_from_0 [simp]: "position_from s 0 p = p"
  by (cases s) simp_all

lemma positionAt_0 [simp]: "positionAt doc 0 = (0, 0)"
  by (simp add: positionAt_def)

lemma Range_new_origin [simp]: "Range_new (0, 0) b = ((0, 0), b)"
  by (cases b) (auto simp: Range_new_def isBefore_def)

lemma processState_flags:
  "ignoreFirstLine (fst (processState input))
     = (languageCode input = ''elixir'' \<or> languageCode input = ''python'' \<or> languageCode input = ''tcl'')"
  "isPlainText (fst (processState input)) = (languageCode input = ''plaintext'')"
  by (auto simp: processState_def Let_def case_prod_beta split: option.splits)

lemma processState_found:
  assumes "fst (GetCommentConfiguration (configuration input) (languageCode input)) = Some cc"
  shows "highlightSingleLineComments (fst (processState input)) = truthy (map_option fst (blockComment cc))"
    and "delimiter (fst (processState input))
          = delimiter (genCommentFormat
              (case or_else (lineComment cc) (map_option fst (blockComment cc)) of
                 None \<Rightarrow> Null | Some s \<Rightarrow> Str s)
              (map_option fst (blockComment cc)) (map_option snd (blockComment cc)))"
    and "languageCode input \<noteq> ''plaintext'' \<Longrightarrow> supportedLanguage (fst (processState input))"
  using assms by (auto simp: processState_def Let_def case_prod_beta)

lemma processState_not_found:
  assumes "fst (GetCommentConfiguration (configuration input) (languageCode input)) = None"
  shows "\<not> highlightSingleLineComments (fst (processState input))"
    and "\<not> highlightMultilineComments (fst (processState input))"
  using assms by (auto simp: processState_def Let_def case_prod_beta)

lemma genCommentFormat_delimiter:
  "d \<noteq> [] \<Longrightarrow> delimiter (genCommentFormat (Str d) a b) = escape_chars ''/'' (escapeRegExp d)"
  by (auto simp: genCommentFormat_def Let_def split: option.splits)

lemma single_line_one:
  assumes st: "highlightSingleLineComments s" "supportedLanguage s" "\<not> isPlainText s"
      "\<not> ignoreFirstLine s" "delimiter s = escape_chars ''/'' (escapeRegExp d)" "d \<noteq> []"
    and tg: "tags input = [t]" "tag t = ''TODO''" "escapedTag t = escape_tag ''TODO''"
    and doc: "content (document (activeEditor input)) = d @ '' TODO: x''" "range_opt input = None"
  shows "findSingleLineComments input s
     = Inr [\<lparr>type = decoration t,
              range' = ((0, 0), positionAt (document (activeEditor input)) (length (d @ '' TODO: x'')))\<rparr>]"
proof -
  let ?doc = "document (activeEditor input)"
  have src: "genSingleLineRegex input s
      = ''('' @ escape_chars ''/'' (escapeRegExp d) @ '')+( |'' @ [CHR 0x09] @ '')*(''
        @ join ''|'' (map escape_tag [''TODO'']) @ '')+(.*)''"
    using st tg by (simp add: genSingleLineRegex_def)
  have re: "RegExp_new (genSingleLineRegex input s) ''ig'' = Some (single_line_regex d [''TODO''] False)"
    unfolding src RegExp_single_line by (simp add: single_line_regex_def)
  let ?body = "\<lambda>match.
      let startPos = positionAt ?doc (range_offset input + m_index match);
          endPos = positionAt ?doc (range_offset input + m_index match + length (m_text match))
      in if ignoreFirstLine s \<and> fst startPos = 0 \<and> snd startPos = 0
         then Inr []
         else push_decoration (tags input) (capture match 3) startPos endPos"
  from one_comment_loop [OF st(6), of False ?body] obtain m tok where
    m: "exec_loop (single_line_regex d [''TODO''] False) (d @ '' TODO: x'') ?body 0
         = (case ?body m of Inl e \<Rightarrow> Inl e | Inr ds \<Rightarrow> Inr ds)"
      "m_index m = 0" "m_text m = d @ '' TODO: x''"
      "capture m 3 = Some tok" "toLowerCase tok = ''todo''"
    by blast
  have off: "range_offset input = 0" using doc(2) by (simp add: range_offset_def)
  have "find_tag (tags input) (capture m 3) = Inr (Some t)"
    using tg m(4,5) by (simp add: find_tag_def toLowerCase_TODO)
  then have "?body m = Inr [\<lparr>type = decoration t,
      range' = ((0, 0), positionAt ?doc (length (d @ '' TODO: x'')))\<rparr>]"
    using st(4) m(2,3) off by (simp add: push_decoration_def Let_def)
  with m(1) have "exec_loop (single_line_regex d [''TODO''] False) (d @ '' TODO: x'') ?body 0
      = Inr [\<lparr>type = decoration t,
               range' = ((0, 0), positionAt ?doc (length (d @ '' TODO: x'')))\<rparr>]"
    by simp
  then show ?thesis
    using st(1,3) doc re
    by (simp add: findSingleLineComments_def getText_def Let_def)
qed

section \<open>The \<^verbatim>\<open>useJSDocStyle\<close> setting\<close>

definition set_useJSDocStyle :: "bool \<Rightarrow> IInput \<Rightarrow> IInput" where
  "set_useJSDocStyle b input = input\<lparr>contributions := (contributions input)\<lparr>useJSDocStyle := b\<rparr>\<rparr>"

lemma document_useJSDocStyle:
  "activeEditor (set_useJSDocStyle b input) = activeEditor input"
  "range_opt (set_useJSDocStyle b input) = range_opt input"
  "tags (set_useJSDocStyle b input) = tags input"
  "languageCode (set_useJSDocStyle b input) = languageCode input"
  "configuration (set_useJSDocStyle b input) = configuration input"
  "highlightMarkdown (contributions (set_useJSDocStyle b input)) = highlightMarkdown (contributions input)"
  "multilineComments (contributions (set_useJSDocStyle b input)) = multilineComments (contributions input)"
  "highlightPlainText (contributions (set_useJSDocStyle b input)) = highlightPlainText (contributions input)"
  by (simp_all add: set_useJSDocStyle_def)

lemma range_offset_useJSDocStyle:
  "range_offset (set_useJSDocStyle b input) = range_offset input"
  by (simp add: range_offset_def document_useJSDocStyle cong: option.case_cong if_cong)

lemma comment_block_lines_useJSDocStyle:
  "comment_block_lines (set_useJSDocStyle b input) = comment_block_lines input"
  by (intro ext) (simp add: comment_block_lines_def document_useJSDocStyle Let_def cong: option.case_cong if_cong)

lemma processState_useJSDocStyle:
  "processState (set_useJSDocStyle b input) = processState input"
  by (simp add: processState_def document_useJSDocStyle Let_def case_prod_beta
      cong: option.case_cong if_cong)

lemma genSingleLineRegex_useJSDocStyle:
  "genSingleLineRegex (set_useJSDocStyle b input) s = genSingleLineRegex input s"
  by (simp add: genSingleLineRegex_def document_useJSDocStyle Let_def)

lemma single_useJSDocStyle:
  "findSingleLineComments (set_useJSDocStyle b input) s = findSingleLineComments input s"
  by (simp add: findSingleLineComments_def genSingleLineRegex_useJSDocStyle
      range_offset_useJSDocStyle document_useJSDocStyle Let_def cong: option.case_cong if_cong)

lemma block_commentMatchString_useJSDocStyle:
  "block_commentMatchString (set_useJSDocStyle b input) = block_commentMatchString input"
  by (simp add: block_commentMatchString_def document_useJSDocStyle)

lemma jsdoc_commentMatchString_useJSDocStyle:
  "jsdoc_commentMatchString (set_useJSDocStyle b input) = jsdoc_commentMatchString input"
  by (simp add: jsdoc_commentMatchString_def document_useJSDocStyle)

lemma markdown_expression_useJSDocStyle:
  "markdown_expression (set_useJSDocStyle b input) = markdown_expression input"
  by (simp add: markdown_expression_def document_useJSDocStyle)

lemma block_useJSDocStyle:
  "findBlockComments (set_useJSDocStyle b input) s = findBlockComments input s"
  by (simp add: findBlockComments_def block_commentMatchString_useJSDocStyle
      comment_block_lines_useJSDocStyle range_offset_useJSDocStyle document_useJSDocStyle
      Let_def cong: option.case_cong if_cong)

lemma jsdoc_useJSDocStyle:
  "findJSDocComments (set_useJSDocStyle b input) s = findJSDocComments input s"
  by (simp add: findJSDocComments_def jsdoc_commentMatchString_useJSDocStyle
      comment_block_lines_useJSDocStyle range_offset_useJSDocStyle document_useJSDocStyle
      Let_def cong: option.case_cong if_cong)

lemma markdown_useJSDocStyle:
  "findMarkdownTextComments (set_useJSDocStyle b input) = findMarkdownTextComments input"
  by (simp add: findMarkdownTextComments_def markdown_expression_useJSDocStyle
      document_useJSDocStyle Let_def cong: option.case_cong if_cong)

lemma set_useJSDocStyle_update:
  "(set_useJSDocStyle b input)\<lparr>configuration := c, languageCode := l, range_opt := r\<rparr>
     = set_useJSDocStyle b (input\<lparr>configuration := c, languageCode := l, range_opt := r\<rparr>)"
  by (simp add: set_useJSDocStyle_def)

lemma code_block_comments_useJSDocStyle:
  "code_block_comments (set_useJSDocStyle b input) c m = code_block_comments input c m"
  by (simp add: code_block_comments_def set_useJSDocStyle_update processState_useJSDocStyle
      single_useJSDocStyle block_useJSDocStyle document_useJSDocStyle Let_def case_prod_beta
      cong: option.case_cong sum.case_cong if_cong)

lemma code_block_loop_useJSDocStyle:
  "code_block_loop re s (set_useJSDocStyle b input) c i = code_block_loop re s input c i"
proof (induction re s input c i rule: code_block_loop.induct)
  case (1 re s input c i)
  show ?case
    by (subst (1 2) code_block_loop.simps)
       (auto simp: code_block_comments_useJSDocStyle "1.IH" split: option.splits sum.splits)
qed

lemma fence_useJSDocStyle:
  "findMarkdownCodeComments (set_useJSDocStyle b input) = findMarkdownCodeComments input"
  by (simp add: findMarkdownCodeComments_def code_block_loop_useJSDocStyle
      document_useJSDocStyle Let_def cong: option.case_cong if_cong)

lemma Parser_new_useJSDocStyle:
  "Parser_new (c\<lparr>useJSDocStyle := b\<rparr>) cfg
     = (Parser_new c cfg)\<lparr>parser_contributions := c\<lparr>useJSDocStyle := b\<rparr>\<rparr>"
  by (simp add: Parser_new_def)

lemma genInput_useJSDocStyle:
  "genInput (p\<lparr>parser_contributions := (parser_contributions p)\<lparr>useJSDocStyle := b\<rparr>\<rparr>) editor
     = set_useJSDocStyle b (genInput p editor)"
  by (simp add: genInput_def set_useJSDocStyle_def)

lemma set_useJSDocStyle_configuration:
  "(set_useJSDocStyle b input)\<lparr>configuration := c\<rparr>
     = set_useJSDocStyle b (input\<lparr>configuration := c\<rparr>)"
  by (simp add: set_useJSDocStyle_def)

lemma UpdateDecorations_useJSDocStyle:
  "UpdateDecorations (p\<lparr>parser_contributions := (parser_contributions p)\<lparr>useJSDocStyle := b\<rparr>\<rparr>) editor
     = UpdateDecorations p editor"
  by (simp add: UpdateDecorations_def genInput_useJSDocStyle processState_useJSDocStyle
      set_useJSDocStyle_configuration single_useJSDocStyle block_useJSDocStyle
      jsdoc_useJSDocStyle markdown_useJSDocStyle fence_useJSDocStyle Let_def case_prod_beta
      cong: sum.case_cong)


text \<open>
  Claim C10. Two inputs that differ only in the \<^verbatim>\<open>useJSDocStyle\<close> setting give the same
  parse state, the same decorations in each of the five scans, and the same calls of
  \<^verbatim>\<open>setDecorations\<close> in the full scan: the setting is read nowhere.
\<close>

theorem useJSDocStyle_has_no_effect:
  "processState (set_useJSDocStyle b input) = processState input
   \<and> findSingleLineComments (set_useJSDocStyle b input) s = findSingleLineComments input s
   \<and> findBlockComments (set_useJSDocStyle b input) s = findBlockComments input s
   \<and> findJSDocComments (set_useJSDocStyle b input) s = findJSDocComments input s
   \<and> findMarkdownTextComments (set_useJSDocStyle b input) = findMarkdownTextComments input
   \<and> findMarkdownCodeComments (set_useJSDocStyle b input) = findMarkdownCodeComments input
   \<and> UpdateDecorations (p\<lparr>parser_contributions := (parser_contributions p)\<lparr>useJSDocStyle := b\<rparr>\<rparr>) editor
       = UpdateDecorations p editor
   \<and> UpdateDecorations (Parser_new (c\<lparr>useJSDocStyle := b\<rparr>) cfg) editor
       = UpdateDecorations (Parser_new c cfg) editor"
proof -
  have "UpdateDecorations (Parser_new (c\<lparr>useJSDocStyle := b\<rparr>) cfg) editor
          = UpdateDecorations (Parser_new c cfg) editor"
    using UpdateDecorations_useJSDocStyle [where p = "Parser_new c cfg" and b = b and editor = editor]
    by (simp add: Parser_new_def)
  then show ?thesis
    by (simp add: processState_useJSDocStyle single_useJSDocStyle block_useJSDocStyle
        jsdoc_useJSDocStyle markdown_useJSDocStyle fence_useJSDocStyle
        UpdateDecorations_useJSDocStyle)
qed

theorem useJSDocStyle_has_no_effect_witness:
  "findJSDocComments (set_useJSDocStyle False (example_input ''javascript'' ''/** TODO */''))
     (fst (processState (example_input ''javascript'' ''/** TODO */'')))
   = findJSDocComments (example_input ''javascript'' ''/** TODO */'')
       (fst (processState (example_input ''javascript'' ''/** TODO */'')))
   \<and> UpdateDecorations (Parser_new (example_contributions\<lparr>useJSDocStyle := False\<rparr>) example_configuration)
         \<lparr>document = \<lparr>languageId = ''javascript'', content = ''// TODO: x''\<rparr>\<rparr>
       = UpdateDecorations example_parser
           \<lparr>document = \<lparr>languageId = ''javascript'', content = ''// TODO: x''\<rparr>\<rparr>"
  using useJSDocStyle_has_no_effect
    [where b = False and input = "example_input ''javascript'' ''/** TODO */''"
       and s = "fst (processState (example_input ''javascript'' ''/** TODO */''))"
       and p = example_parser
       and editor = "\<lparr>document = \<lparr>languageId = ''javascript'', content = ''// TODO: x''\<rparr>\<rparr>"
       and c = example_contributions and cfg = example_configuration]
  by (simp add: example_parser_def)

section \<open>One tagged comment in a supported language\<close>

lemma setTags_single:
  "item_tag item = t \<Longrightarrow>
   setTags [item] [] = [\<lparr>tag = t, escapedTag = escape_tag t,
      decoration = \<lparr>dt_key = 0, dt_options = tag_options item\<rparr>, ranges = []\<rparr>]"
  by simp

lemma or_else_block:
  "bs \<noteq> [] \<Longrightarrow> or_else a (Some bs) = Some d \<Longrightarrow> d \<noteq> []"
  by (auto simp: or_else_def split: option.splits if_splits)

text \<open>
  Claim C1, amended. For every language whose comment syntax is found and has a
  non-empty block-comment start, other than Elixir, Python, Tcl (first-line suppression)
  and plain text (anchored to the line start instead of a delimiter), with the single
  tag \<^verbatim>\<open>TODO\<close> configured: a document that consists of the comment
  \<open>d @ '' TODO: x''\<close>, where \<open>d\<close> is the language's line-comment delimiter (the
  block-comment start if it has none), yields exactly one decoration, of the tag's
  decoration type. Its range starts at offset 0, where the delimiter starts, and ends
  at the end of the document, so it covers \<^verbatim>\<open>TODO: x\<close>, which stands at the offsets from
  \<open>length d + 1\<close> on.
\<close>

theorem supported_language_todo_comment:
  assumes "fst (GetCommentConfiguration (configuration input) (languageCode input)) = Some cc"
    and "blockComment cc = Some (bs, be)" and "bs \<noteq> []"
    and "or_else (lineComment cc) (Some bs) = Some d"
    and "languageCode input \<notin> {''elixir'', ''python'', ''tcl'', ''plaintext''}"
    and "tags input = setTags [item] []" and "item_tag item = ''TODO''"
    and "content (document (activeEditor input)) = d @ '' TODO: x''"
    and "range_opt input = None"
  shows "findSingleLineComments input (fst (processState input))
     = Inr [\<lparr>type = \<lparr>dt_key = 0, dt_options = tag_options item\<rparr>,
              range' = ((0, 0), positionAt (document (activeEditor input)) (length d + 8))\<rparr>]
     \<and> take 7 (drop (length d + 1) (content (document (activeEditor input)))) = ''TODO: x''"
proof -
  let ?s = "fst (processState input)"
  let ?t = "\<lparr>tag = ''TODO'', escapedTag = escape_tag ''TODO'',
      decoration = \<lparr>dt_key = 0, dt_options = tag_options item\<rparr>, ranges = []\<rparr>"
  have d: "d \<noteq> []" using or_else_block [OF assms(3,4)] .
  have hl: "highlightSingleLineComments ?s"
    using processState_found(1) [OF assms(1)] assms(2,3) by (simp add: truthy_def)
  have sup: "supportedLanguage ?s"
    using processState_found(3) [OF assms(1)] assms(5) by simp
  have flags: "\<not> isPlainText ?s" "\<not> ignoreFirstLine ?s"
    using assms(5) by (simp_all add: processState_flags)
  have del: "delimiter ?s = escape_chars ''/'' (escapeRegExp d)"
    using processState_found(2) [OF assms(1)] assms(2,4) d
    by (simp add: genCommentFormat_delimiter)
  have tg: "tags input = [?t]" using assms(6) setTags_single [OF assms(7)] by simp
  have "findSingleLineComments input ?s
     = Inr [\<lparr>type = decoration ?t,
              range' = ((0, 0), positionAt (document (activeEditor input)) (length (d @ '' TODO: x'')))\<rparr>]"
    by (rule single_line_one [OF hl sup flags del d tg _ _ assms(8,9)]) simp_all
  moreover have "length (d @ '' TODO: x'') = length d + 8" by simp
  ultimately have "findSingleLineComments input ?s
     = Inr [\<lparr>type = \<lparr>dt_key = 0, dt_options = tag_options item\<rparr>,
              range' = ((0, 0), positionAt (document (activeEditor input)) (length d + 8))\<rparr>]"
    by (simp only: CommentTag.simps)
  moreover have "take 7 (drop (length d + 1) (content (document (activeEditor input)))) = ''TODO: x''"
    unfolding assms(8) by simp
  ultimately show ?thesis by (rule conjI)
qed

theorem supported_language_todo_comment_witness:
  "findSingleLineComments (example_input ''javascript'' ''// TODO: x'')
     (fst (processState (example_input ''javascript'' ''// TODO: x'')))
   = Inr [\<lparr>type = example_todo, range' = ((0, 0), (0, 10))\<rparr>]"
proof -
  let ?input = "example_input ''javascript'' ''// TODO: x''"
  have h1: "fst (GetCommentConfiguration (configuration ?input) (languageCode ?input))
      = Some \<lparr>lineComment = Some ''//'', blockComment = Some (''/*'', ''*/'')\<rparr>"
    by code_simp
  have h5: "languageCode ?input \<notin> {''elixir'', ''python'', ''tcl'', ''plaintext''}"
    by (simp add: example_input_def genInput_def)
  have h6: "tags ?input = setTags [example_item ''TODO''] []"
    by (simp add: example_input_def genInput_def example_parser_def Parser_new_def
        example_contributions_def)
  have h8: "content (document (activeEditor ?input)) = ''//'' @ '' TODO: x''"
    by (simp add: example_input_def genInput_def)
  have h9: "range_opt ?input = None"
    by (simp add: example_input_def genInput_def)
  have p: "positionAt (document (activeEditor ?input)) (length ''//'' + 8) = (0, 10)"
    by code_simp
  have t: "\<lparr>dt_key = 0, dt_options = tag_options (example_item ''TODO'')\<rparr> = example_todo"
    by code_simp
  from supported_language_todo_comment [of ?input _ "''/*''" "''*/''" "''//''" "example_item ''TODO''",
      OF h1 _ _ _ h5 h6 _ h8 h9]
  show ?thesis
    unfolding p t by (simp add: or_else_def example_item_def)
qed

text \<open>The claim as stated fails for a supported language with first-line suppression:
  Python's comment syntax is found, and the scan of \<^verbatim>\<open># TODO: x\<close> yields nothing.\<close>

theorem supported_language_todo_comment_counterexample:
  "fst (GetCommentConfiguration (configuration (example_input ''python'' ''# TODO: x'')) ''python'')
     = Some \<lparr>lineComment = Some ''#'', blockComment = Some (''\"\"\"'', ''\"\"\"'')\<rparr>
   \<and> findSingleLineComments (example_input ''python'' ''# TODO: x'')
        (fst (processState (example_input ''python'' ''# TODO: x''))) = Inr []"
  by code_simp

section \<open>A language with block comments only\<close>


lemma escape_chars_Nil [simp]: "escape_chars cls [] = []"
  by (simp add: escape_chars_def)

lemma escapeRegExp_Nil [simp]: "escapeRegExp [] = []"
  by (simp add: escapeRegExp_def)


section \<open>The escaped form of a tag\<close>

text \<open>The characters with a meaning of their own in a pattern (the standard's
  \<^verbatim>\<open>SyntaxCharacter\<close>), and a tag with each of them and each slash escaped.\<close>

definition regex_metacharacters :: string where
  "regex_metacharacters = ''^$'' @ bsl @ ''.*+?()[]{}|''"

definition all_metacharacters_escaped :: "string \<Rightarrow> string" where
  "all_metacharacters_escaped t = escape_chars ''/'' (escape_chars regex_metacharacters t)"

lemma setTags_tags_acc: "map tag (setTags items acc) = map tag acc @ map item_tag items"
  by (induction items arbitrary: acc) simp_all

lemma setTags_tags: "map tag (setTags items []) = map item_tag items"
  by (simp add: setTags_tags_acc)

lemma setTags_escaped_acc:
  "(\<And>t. t \<in> set acc \<Longrightarrow> escapedTag t = escape_tag (tag t)) \<Longrightarrow>
   t \<in> set (setTags items acc) \<Longrightarrow> escapedTag t = escape_tag (tag t)"
proof (induction items arbitrary: acc)
  case Nil
  then show ?case by simp
next
  case (Cons item items)
  show ?case
  proof (rule Cons.IH [of "acc @ [\<lparr>tag = item_tag item, escapedTag = escape_tag (item_tag item),
      decoration = \<lparr>dt_key = length acc, dt_options = tag_options item\<rparr>, ranges = []\<rparr>]"])
    fix u
    assume "u \<in> set (acc @ [\<lparr>tag = item_tag item, escapedTag = escape_tag (item_tag item),
      decoration = \<lparr>dt_key = length acc, dt_options = tag_options item\<rparr>, ranges = []\<rparr>])"
    then show "escapedTag u = escape_tag (tag u)"
      using Cons.prems(1) by auto
  next
    show "t \<in> set (setTags items (acc @ [\<lparr>tag = item_tag item, escapedTag = escape_tag (item_tag item),
      decoration = \<lparr>dt_key = length acc, dt_options = tag_options item\<rparr>, ranges = []\<rparr>]))"
      using Cons.prems(2) by simp
  qed
qed

lemma setTags_escaped: "t \<in> set (setTags items []) \<Longrightarrow> escapedTag t = escape_tag (tag t)"
  by (rule setTags_escaped_acc [of "[]"]) simp_all

lemma map_escapedTag:
  "(\<And>t. t \<in> set ts \<Longrightarrow> escapedTag t = escape_tag (tag t)) \<Longrightarrow>
   map escapedTag ts = map escape_tag (map tag ts)"
  by (induction ts) simp_all

lemma escape_tag_once:
  "escape_tag t
     = concat (map (\<lambda>c. if c \<in> set (''()[{*+.$^'' @ bsl @ ''|?/'') then [CHR 0x5C, c] else [c]) t)"
proof -
  have "escape_tag t = escape_chars ((''()[{*+.$^'' @ bsl @ ''|?'') @ ''/'') t"
    unfolding escape_tag_def by (rule escape_chars_twice) simp
  then show ?thesis by (simp add: escape_chars_def)
qed

lemma tokenise_escape_tag_alone: "tokenise (escape_tag t) = Some (map TChar t)"
  using tokenise_escape_tag [of t "[]"] by simp

lemma RegExp_tag_alternation:
  "RegExp_new (''('' @ join ''|'' (map escape_tag ts) @ '')'') flags
     = Some \<lparr>re_tree = Seq (Group 1 (alts (map lits (if ts = [] then [[]] else ts)))) Empty,
              re_groups = 1, re_ignoreCase = (CHR ''i'' \<in> set flags),
              re_multiline = (CHR ''m'' \<in> set flags)\<rparr>"
proof -
  have nq: "no_quest (join ''|'' (map escape_tag ts) @ '')'')"
    by (rule no_quest_join_tags) simp
  have "tokenise (''('' @ join ''|'' (map escape_tag ts) @ '')'')
      = Some (TLParen # tag_tokens ts @ [TRParen])"
    using nq by (simp del: tokenise.simps(2) add: tokenise_lparen tokenise_join_tags tk)
  moreover have "parse_tokens (TLParen # tag_tokens ts @ [TRParen]) ([Frame [] [] 0], 1)
      = Some ([Frame [] [Group 1 (alts (map lits (if ts = [] then [[]] else ts)))] 0], 2)"
    by (simp add: parse_tag_tokens)
  ultimately show ?thesis
    unfolding RegExp_new_def
    by (simp del: tokenise.simps parse_tokens.simps add: seqs_def)
qed

text \<open>Claim C5, amended. For every configured tag, \<^verbatim>\<open>setTags\<close> keeps the tag and stores as
  \<^verbatim>\<open>escapedTag\<close> the tag with a backslash before each of the characters
  \<^verbatim>\<open>( ) [ { * + . $ ^ \ | ?\<close> and before each slash, and before no other character (so
  \<^verbatim>\<open>]\<close> and \<^verbatim>\<open>}\<close> stay as they are). The escaped form is read back by the pattern reader as
  the characters of the tag, and the alternation of the escaped tags is the pattern whose
  alternatives are the literal tags, in the order of the configuration.\<close>

theorem escapedTag_escapes_openers:
  "map tag (setTags items []) = map item_tag items
   \<and> (\<forall>t \<in> set (setTags items []).
        escapedTag t
          = concat (map (\<lambda>c. if c \<in> set (''()[{*+.$^'' @ bsl @ ''|?/'') then [CHR 0x5C, c] else [c]) (tag t))
        \<and> tokenise (escapedTag t) = Some (map TChar (tag t)))
   \<and> RegExp_new (''('' @ join ''|'' (map escapedTag (setTags items [])) @ '')'') flags
       = Some \<lparr>re_tree = Seq (Group 1 (alts (map lits
                            (if items = [] then [[]] else map item_tag items)))) Empty,
                re_groups = 1, re_ignoreCase = (CHR ''i'' \<in> set flags),
                re_multiline = (CHR ''m'' \<in> set flags)\<rparr>"
proof -
  have esc: "map escapedTag (setTags items []) = map escape_tag (map item_tag items)"
    using map_escapedTag [of "setTags items []"] setTags_escaped [of _ items]
    by (simp add: setTags_tags)
  have each: "\<forall>t \<in> set (setTags items []).
        escapedTag t
          = concat (map (\<lambda>c. if c \<in> set (''()[{*+.$^'' @ bsl @ ''|?/'') then [CHR 0x5C, c] else [c]) (tag t))
        \<and> tokenise (escapedTag t) = Some (map TChar (tag t))"
  proof
    fix t
    assume "t \<in> set (setTags items [])"
    then have e: "escapedTag t = escape_tag (tag t)" by (rule setTags_escaped)
    show "escapedTag t
          = concat (map (\<lambda>c. if c \<in> set (''()[{*+.$^'' @ bsl @ ''|?/'') then [CHR 0x5C, c] else [c]) (tag t))
        \<and> tokenise (escapedTag t) = Some (map TChar (tag t))"
      unfolding e using escape_tag_once [of "tag t"] tokenise_escape_tag_alone [of "tag t"]
      by (intro conjI)
  qed
  have alt: "RegExp_new (''('' @ join ''|'' (map escapedTag (setTags items [])) @ '')'') flags
       = Some \<lparr>re_tree = Seq (Group 1 (alts (map lits
                            (if items = [] then [[]] else map item_tag items)))) Empty,
                re_groups = 1, re_ignoreCase = (CHR ''i'' \<in> set flags),
                re_multiline = (CHR ''m'' \<in> set flags)\<rparr>"
    unfolding esc using RegExp_tag_alternation [of "map item_tag items" flags] by simp
  from setTags_tags each alt show ?thesis by (intro conjI)
qed

theorem escapedTag_escapes_openers_counterexample:
  "map escapedTag (setTags [example_item '']'', example_item ''}''] []) = ['']'', ''}'']
   \<and> map all_metacharacters_escaped ['']'', ''}''] = [bsl @ '']'', bsl @ ''}'']"
  by code_simp

theorem escapedTag_escapes_openers_witness:
  "map escapedTag (setTags [example_item ''?'', example_item ''//''] [])
     = [bsl @ ''?'', bsl @ ''/'' @ bsl @ ''/'']
   \<and> map (\<lambda>t. tokenise (escapedTag t)) (setTags [example_item ''?'', example_item ''//''] [])
     = [Some [TChar CHR ''?''], Some [TChar CHR ''/'', TChar CHR ''/'']]
   \<and> map_option re_tree
       (RegExp_new (''('' @ join ''|'' (map escapedTag (setTags [example_item ''?'', example_item ''//''] [])) @ '')'') ''ig'')
     = Some (Seq (Group 1 (Alt (lits ''?'') (lits ''//''))) Empty)"
proof -
  have items: "setTags [example_item ''?'', example_item ''//''] []
      = [\<lparr>tag = ''?'', escapedTag = escape_tag ''?'',
           decoration = \<lparr>dt_key = 0, dt_options = tag_options (example_item ''?'')\<rparr>, ranges = []\<rparr>,
         \<lparr>tag = ''//'', escapedTag = escape_tag ''//'',
           decoration = \<lparr>dt_key = 1, dt_options = tag_options (example_item ''//'')\<rparr>, ranges = []\<rparr>]"
    by (simp add: example_item_def)
  have e: "escape_tag ''?'' = bsl @ ''?''" "escape_tag ''//'' = bsl @ ''/'' @ bsl @ ''/''"
    by code_simp+
  from escapedTag_escapes_openers [of "[example_item ''?'', example_item ''//'']" "''ig''"]
  show ?thesis
    unfolding items by (simp add: e example_item_def)
qed


section \<open>Running the scans on a concrete document\<close>

text \<open>
  The continuation of the matcher is only looked at when it is called: with these
  congruence rules the simplifier runs a pattern on a text the way the program does,
  and reads the pattern sources of the program into their syntax trees.
\<close>

lemma matcher_cong: "r = r' \<Longrightarrow> x = y \<Longrightarrow> matcher ic ml r x k = matcher ic ml r' y k"
  by simp

lemma read_char_cong: "x = y \<Longrightarrow> read_char p x k = read_char p y k"
  by simp

lemmas run_pattern = start_state_def read_char_def class_matches_def canonicalize_def upper_char_def
  lower_char_def toLowerCase_def
  code_unit_def is_line_terminator_def consumed_def clear_captures_def is_white_space_def
  is_word_char_def is_digit_def is_alnum_def Let_def char_of_def bit_0 m_end_def capture_def
  upt_rec

lemmas read_pattern = RegExp_new_def seqs_def escape_token_def escape_item_def is_alnum_def code_unit_def
  Let_def char_of_def bit_0

lemma jsdoc_block_regex:
  "RegExp_new jsdoc_block_source ''gm'' = Some
  \<lparr>re_tree =
     Seq (Group 1
           (Alt (Seq Bol Empty)
             (Seq (Cls False [CI_char CHR '' '', CI_char CHR 0x09]) Empty)))
      (Seq (Plus True
             (Group 2
               (Seq (Chr CHR ''/'')
                 (Seq (Chr CHR ''*'') (Seq (Chr CHR ''*'') Empty)))))
        (Seq (Group 3
               (Seq (Star False (Cls False [CI_space, CI_nonspace])) Empty))
          (Seq (Group 4 (Seq (Chr CHR ''*'') (Seq (Chr CHR ''/'') Empty)))
            Empty))),
     re_groups = 4, re_ignoreCase = False, re_multiline = True\<rparr>"
  by (simp add: jsdoc_block_source_def read_pattern)

lemma example_tags: "tags (example_input lang txt)
   = [\<lparr>tag = ''TODO'', escapedTag = ''TODO'', decoration = example_todo, ranges = []\<rparr>]"
  by (simp add: example_input_def genInput_def example_parser_def Parser_new_def
        example_contributions_def example_item_def escape_tag_def escape_chars_def
        example_todo_def tag_options_def)

lemma example_document:
  "document (activeEditor (example_input lang txt)) = \<lparr>languageId = lang, content = txt\<rparr>"
  "range_opt (example_input lang txt) = None"
  "languageCode (example_input lang txt) = lang"
  by (simp_all add: example_input_def genInput_def)

lemma jsdoc_line_regex:
  "RegExp_new (jsdoc_commentMatchString (example_input lang txt)) ''igm'' = Some
  \<lparr>re_tree =
     Seq (Plus True (Group 1 (Seq Bol Empty)))
      (Seq (Group 2
             (Seq (Star True
                    (Cls False [CI_char CHR '' '', CI_char CHR 0x09]))
               (Seq (Chr CHR ''*'')
                 (Seq (Star True
                        (Cls False [CI_char CHR '' '', CI_char CHR 0x09]))
                   Empty))))
        (Seq (Group 3
               (Seq (Chr CHR ''T'')
                 (Seq (Chr CHR ''O'')
                   (Seq (Chr CHR ''D'') (Seq (Chr CHR ''O'') Empty)))))
          (Seq (Plus True
                 (Group 4
                   (Alt (Seq (Star True (Cls False [CI_char CHR '' '']))
                          Empty)
                     (Seq (Cls False [CI_char CHR '':'']) Empty))))
            (Seq (Group 5
                   (Seq (Cls True [CI_char CHR ''*'', CI_char CHR ''/''])
                     (Seq (Star True
                            (Cls True
                              [CI_char CHR 0x0D, CI_char CHR 0x0A]))
                       Empty)))
              Empty)))),
     re_groups = 5, re_ignoreCase = True, re_multiline = True\<rparr>"
  by (simp add: jsdoc_commentMatchString_def example_tags read_pattern)


section \<open>A language whose comment syntax is not found\<close>

lemma processState_highlightJSDoc:
  "highlightJSDoc (fst (processState input))
     = (languageCode input \<in> {''apex'', ''javascript'', ''javascriptreact'',
                                ''typescript'', ''typescriptreact''})"
  by (auto simp: processState_def Let_def case_prod_beta split: option.splits)

text \<open>
  Claim C2, amended. When the comment syntax of the input's language is not found, and
  the input is not plain text with plain-text highlighting enabled, the single-line scan
  and the block scan return no decoration. The JSDoc scan returns none unless the
  language is one of
  \<^verbatim>\<open>apex\<close>, \<^verbatim>\<open>javascript\<close>, \<^verbatim>\<open>javascriptreact\<close>, \<^verbatim>\<open>typescript\<close>, \<^verbatim>\<open>typescriptreact\<close>, for which
  it runs on its own fixed delimiters; the Markdown text scan and the scan of fenced
  code return none, and leave the configuration as it was, unless the language is
  \<^verbatim>\<open>markdown\<close>, which is all they test.
\<close>

theorem unsupported_language_scans:
  assumes "fst (GetCommentConfiguration (configuration input) (languageCode input)) = None"
    and "\<not> (languageCode input = ''plaintext'' \<and> highlightPlainText (contributions input))"
  shows "findSingleLineComments input (fst (processState input)) = Inr []
       \<and> findBlockComments input (fst (processState input)) = Inr []
       \<and> (languageCode input \<notin> {''apex'', ''javascript'', ''javascriptreact'',
                                    ''typescript'', ''typescriptreact''}
            \<longrightarrow> findJSDocComments input (fst (processState input)) = Inr [])
       \<and> (languageCode input \<noteq> ''markdown''
            \<longrightarrow> findMarkdownTextComments input = Inr []
              \<and> findMarkdownCodeComments input = Inr ([], configuration input))"
proof (intro conjI impI)
  show "findSingleLineComments input (fst (processState input)) = Inr []"
    using processState_not_found(1) [OF assms(1)] by (simp add: findSingleLineComments_def)
  show "findBlockComments input (fst (processState input)) = Inr []"
    using processState_not_found(2) [OF assms(1)] by (simp add: findBlockComments_def)
  show "findJSDocComments input (fst (processState input)) = Inr []"
    if "languageCode input \<notin> {''apex'', ''javascript'', ''javascriptreact'',
                                  ''typescript'', ''typescriptreact''}"
    using processState_not_found(2) [OF assms(1)] that
    by (simp only: findJSDocComments_def processState_highlightJSDoc) simp
  show "findMarkdownTextComments input = Inr []" if "languageCode input \<noteq> ''markdown''"
    using that by (simp add: findMarkdownTextComments_def)
  show "findMarkdownCodeComments input = Inr ([], configuration input)"
    if "languageCode input \<noteq> ''markdown''"
    using that by (simp add: findMarkdownCodeComments_def)
qed

theorem unsupported_language_scans_witness:
  "fst (GetCommentConfiguration (configuration (example_input ''rust'' ''// TODO: x''))
         (languageCode (example_input ''rust'' ''// TODO: x''))) = None
   \<and> languageCode (example_input ''rust'' ''// TODO: x'') \<noteq> ''plaintext''
   \<and> findSingleLineComments (example_input ''rust'' ''// TODO: x'')
        (fst (processState (example_input ''rust'' ''// TODO: x''))) = Inr []
   \<and> findBlockComments (example_input ''rust'' ''// TODO: x'')
        (fst (processState (example_input ''rust'' ''// TODO: x''))) = Inr []
   \<and> findJSDocComments (example_input ''rust'' ''// TODO: x'')
        (fst (processState (example_input ''rust'' ''// TODO: x''))) = Inr []
   \<and> findMarkdownTextComments (example_input ''rust'' ''// TODO: x'') = Inr []
   \<and> findMarkdownCodeComments (example_input ''rust'' ''// TODO: x'')
       = Inr ([], configuration (example_input ''rust'' ''// TODO: x''))"
proof -
  let ?input = "example_input ''rust'' ''// TODO: x''"
  have h: "fst (GetCommentConfiguration (configuration ?input) (languageCode ?input)) = None"
    by code_simp
  have l: "languageCode ?input = ''rust''"
    by (simp add: example_input_def genInput_def)
  have n: "\<not> (languageCode ?input = ''plaintext'' \<and> highlightPlainText (contributions ?input))"
    by (simp add: l)
  from unsupported_language_scans [OF h n] h show ?thesis
    by (simp add: l)
qed

text \<open>A TypeScript document where the comment syntax of TypeScript is not found: the
  JSDoc scan still decorates the tagged line of the comment.\<close>

theorem unsupported_language_scans_counterexample:
  "fst (GetCommentConfiguration
          (configuration (example_input ''typescript'' (''/**'' @ [CHR 0x0A] @ '' * TODO a'' @ [CHR 0x0A] @ '' */'')))
          (languageCode (example_input ''typescript'' (''/**'' @ [CHR 0x0A] @ '' * TODO a'' @ [CHR 0x0A] @ '' */''))))
     = None
   \<and> languageCode (example_input ''typescript'' (''/**'' @ [CHR 0x0A] @ '' * TODO a'' @ [CHR 0x0A] @ '' */'')) \<noteq> ''plaintext''
   \<and> highlightPlainText (contributions (example_input ''typescript'' (''/**'' @ [CHR 0x0A] @ '' * TODO a'' @ [CHR 0x0A] @ '' */''))) = False
   \<and> findJSDocComments (example_input ''typescript'' (''/**'' @ [CHR 0x0A] @ '' * TODO a'' @ [CHR 0x0A] @ '' */''))
        (fst (processState (example_input ''typescript'' (''/**'' @ [CHR 0x0A] @ '' * TODO a'' @ [CHR 0x0A] @ '' */''))))
      = Inr [\<lparr>type = example_todo, range' = ((1, 3), (1, 9))\<rparr>]"
proof -
  let ?input = "example_input ''typescript'' (''/**'' @ [CHR 0x0A] @ '' * TODO a'' @ [CHR 0x0A] @ '' */'')"
  have "fst (GetCommentConfiguration (configuration ?input) (languageCode ?input)) = None"
    by code_simp
  moreover have "languageCode ?input \<noteq> ''plaintext''"
    by (simp add: example_document)
  moreover have "highlightPlainText (contributions ?input) = False"
    by code_simp
  moreover have "findJSDocComments ?input (fst (processState ?input))
      = Inr [\<lparr>type = example_todo, range' = ((1, 3), (1, 9))\<rparr>]"
    unfolding findJSDocComments_def processState_highlightJSDoc jsdoc_block_regex jsdoc_line_regex
      example_tags example_document comment_block_lines_def
    by (simp add: exec.simps exec_loop.simps run_pattern getText_def range_offset_def example_document
        example_tags push_decoration_def find_tag_def positionAt_def Range_new_def isBefore_def
        cong: matcher_cong read_char_cong)
  ultimately show ?thesis by (intro conjI)
qed


section \<open>The matches a loop visits\<close>

text \<open>
  The matches that \<^verbatim>\<open>while (match = regEx.exec(s))\<close> goes through, in the order of the
  visits, whatever the body does: the loop with a body that only records the match.
  What a loop yields is what its body yields on these matches, one after the other.
\<close>

definition matches :: "RegExp \<Rightarrow> string \<Rightarrow> nat \<Rightarrow> failure + rmatch list" where
  "matches re s i = exec_loop re s (\<lambda>m. Inr [m]) i"

fun collect :: "('m \<Rightarrow> failure + 'a list) \<Rightarrow> 'm list \<Rightarrow> failure + 'a list" where
  "collect body [] = Inr []"
| "collect body (m # ms) =
     (case body m of
        Inl e \<Rightarrow> Inl e
      | Inr ds \<Rightarrow> (case collect body ms of Inl e \<Rightarrow> Inl e | Inr ds' \<Rightarrow> Inr (ds @ ds')))"

lemma matches_Nil: "matches re s i = Inr [] \<longleftrightarrow> exec re s i = None"
  unfolding matches_def
  by (subst exec_loop.simps) (auto split: option.splits sum.splits)

lemma matches_Cons:
  "matches re s i = Inr (m # ms)
     \<longleftrightarrow> exec re s i = Some m \<and> i < m_end m \<and> matches re s (m_end m) = Inr ms"
  unfolding matches_def
  by (subst exec_loop.simps) (auto split: option.splits sum.splits)

lemma exec_loop_collect:
  "matches re s i = Inr ms \<Longrightarrow> exec_loop re s body i = collect body ms"
proof (induction ms arbitrary: i)
  case Nil
  then have "exec re s i = None" by (simp add: matches_Nil)
  then show ?case by (subst exec_loop.simps) simp
next
  case (Cons m ms)
  then have m: "exec re s i = Some m" "i < m_end m" "matches re s (m_end m) = Inr ms"
    by (simp_all add: matches_Cons)
  from Cons.IH [OF m(3)] m(1,2) show ?case
    by (subst exec_loop.simps) (simp split: sum.splits)
qed

lemma exec_loop_returns:
  "exec_loop re s body i = Inr ds \<Longrightarrow> \<exists>ms. matches re s i = Inr ms"
proof (induction re s body i arbitrary: ds rule: exec_loop.induct)
  case (1 re s body i)
  show ?case
  proof (cases "exec re s i")
    case None
    then have "matches re s i = Inr []" by (simp add: matches_Nil)
    then show ?thesis by blast
  next
    case (Some m)
    with "1.prems" obtain ds0 ds1 where b: "body m = Inr ds0" "\<not> m_end m \<le> i"
      "exec_loop re s body (m_end m) = Inr ds1"
      by (subst (asm) exec_loop.simps) (auto split: sum.splits if_splits)
    from "1.IH" [OF Some b] obtain ms where "matches re s (m_end m) = Inr ms" by blast
    with Some b(2) have "matches re s i = Inr (m # ms)" by (simp add: matches_Cons)
    then show ?thesis by blast
  qed
qed

lemma collect_member:
  "collect body ms = Inr ds \<Longrightarrow> d \<in> set ds \<Longrightarrow>
   \<exists>m ds'. m \<in> set ms \<and> body m = Inr ds' \<and> d \<in> set ds'"
proof (induction ms arbitrary: ds)
  case Nil
  then show ?case by simp
next
  case (Cons m ms)
  from Cons.prems(1) obtain ds0 ds1 where b: "body m = Inr ds0" "collect body ms = Inr ds1"
    "ds = ds0 @ ds1"
    by (auto split: sum.splits)
  from Cons.prems(2) b(3) have "d \<in> set ds0 \<or> d \<in> set ds1" by simp
  then show ?case
  proof
    assume "d \<in> set ds0"
    with b(1) show ?thesis by auto
  next
    assume "d \<in> set ds1"
    from Cons.IH [OF b(2) this] show ?thesis by auto
  qed
qed

lemma matches_exec:
  "matches re s i = Inr ms \<Longrightarrow> m \<in> set ms \<Longrightarrow> \<exists>j. i \<le> j \<and> exec re s j = Some m"
proof (induction ms arbitrary: i)
  case Nil
  then show ?case by simp
next
  case (Cons a ms)
  then have a: "exec re s i = Some a" "i < m_end a" "matches re s (m_end a) = Inr ms"
    by (simp_all add: matches_Cons)
  show ?case
  proof (cases "m = a")
    case True
    with a(1) show ?thesis by auto
  next
    case False
    with Cons.prems(2) have "m \<in> set ms" by simp
    from Cons.IH [OF a(3) this] obtain j where "m_end a \<le> j" "exec re s j = Some m" by auto
    with a(2) show ?thesis by (intro exI [of _ j]) simp
  qed
qed

lemma matches_in_order:
  "matches re s i = Inr ms \<Longrightarrow>
   sorted_wrt (\<lambda>a b. m_end a \<le> m_index b) ms
   \<and> (\<forall>m \<in> set ms. i \<le> m_index m \<and> m_end m \<le> length s)"
proof (induction ms arbitrary: i)
  case Nil
  then show ?case by simp
next
  case (Cons a ms)
  then have a: "exec re s i = Some a" "i < m_end a" "matches re s (m_end a) = Inr ms"
    by (simp_all add: matches_Cons)
  from exec_bounds [OF a(1)] have b: "i \<le> m_index a" "m_end a \<le> length s" by simp_all
  from Cons.IH [OF a(3)] have ih: "sorted_wrt (\<lambda>a b. m_end a \<le> m_index b) ms"
    "\<forall>m \<in> set ms. m_end a \<le> m_index m \<and> m_end m \<le> length s"
    by simp_all
  from ih b a(2) show ?case by auto
qed


section \<open>Two block comments side by side\<close>

text \<open>The block pattern of a language whose block comments are \<^verbatim>\<open>/* */\<close>.\<close>

definition slash_star_blocks :: RegExp where
  "slash_star_blocks =
     \<lparr>re_tree =
        Seq (Group 1 (Alt (Seq Bol Empty) (Seq (Cls False [CI_char CHR '' '', CI_char CHR 0x09]) Empty)))
          (Seq (Plus True
                 (Group 2 (Seq (Chr CHR ''/'') (Seq (Chr CHR ''*'') (Seq (Cls False [CI_space]) Empty)))))
            (Seq (Group 3 (Seq (Star False (Cls False [CI_space, CI_nonspace])) Empty))
              (Seq (Group 4 (Seq (Chr CHR ''*'') (Seq (Chr CHR ''/'') Empty))) Empty))),
      re_groups = 4, re_ignoreCase = False, re_multiline = True\<rparr>"

lemma block_regex_slash_star:
  assumes "blockCommentStart s = escapeRegExp ''/*''" "blockCommentEnd s = escapeRegExp ''*/''"
  shows "RegExp_new (block_regexString s) ''gm'' = Some slash_star_blocks"
  unfolding block_regexString_def assms
  by (simp add: escapeRegExp_def escape_chars_def slash_star_blocks_def read_pattern)

lemma two_block_regions:
  "matches slash_star_blocks ''/* TODO a */ /* TODO b */'' 0
     = Inr [\<lparr>m_index = 0, m_text = ''/* TODO a */'',
              m_caps = [Some [], Some ''/* '', Some ''TODO a '', Some ''*/'']\<rparr>,
            \<lparr>m_index = 12, m_text = '' /* TODO b */'',
              m_caps = [Some '' '', Some ''/* '', Some ''TODO b '', Some ''*/'']\<rparr>]"
  by (simp add: matches_def slash_star_blocks_def exec.simps exec_loop.simps run_pattern
      cong: matcher_cong read_char_cong)

lemma findBlockComments_collect:
  assumes "highlightMultilineComments s"
    and "RegExp_new (block_regexString s) ''gm'' = Some regEx"
    and "RegExp_new (block_commentMatchString input) ''igm'' = Some commentRegEx"
    and "matches regEx (getText (document (activeEditor input)) (range_opt input)) 0 = Inr ms"
  shows "findBlockComments input s
       = collect (comment_block_lines input commentRegEx (range_offset input)) ms"
  using assms(1-3) exec_loop_collect [OF assms(4)]
  by (simp add: findBlockComments_def)

lemma block_line_regex:
  "RegExp_new (block_commentMatchString (example_input lang doc_text)) ''igm'' = Some
  \<lparr>re_tree =
     Seq (Plus True (Group 1 (Seq Bol Empty)))
      (Seq (Group 2
             (Seq (Star True (Cls False [CI_char CHR '' '', CI_char CHR 0x09]))
               (Seq (Star True (Cls False [CI_char CHR '' '', CI_char CHR 0x09])) Empty)))
        (Seq (Group 3
               (Seq (Chr CHR ''T'') (Seq (Chr CHR ''O'') (Seq (Chr CHR ''D'') (Seq (Chr CHR ''O'') Empty)))))
          (Seq (Plus True
                 (Group 4
                   (Alt (Seq (Star True (Cls False [CI_char CHR '' ''])) Empty)
                     (Seq (Cls False [CI_char CHR '':'']) Empty))))
            (Seq (Group 5
                   (Seq (Cls True [CI_char CHR ''*'', CI_char CHR ''/''])
                     (Seq (Star True (Cls True [CI_char CHR 0x0D, CI_char CHR 0x0A])) Empty)))
              Empty)))),
     re_groups = 5, re_ignoreCase = True, re_multiline = True\<rparr>"
  by (simp add: block_commentMatchString_def example_tags read_pattern)


subsection \<open>Where a block region ends\<close>

text \<open>
  The lazy repetition of the block pattern's interior, \<^verbatim>\<open>[\s\S]*?\<close>, hands over to what
  follows it at the first place where that succeeds: the state \<open>skip n x\<close> is \<open>x\<close> after
  \<open>n\<close> more characters.
\<close>

definition skip :: "nat \<Rightarrow> mstate \<Rightarrow> mstate" where
  "skip n x =
     x\<lparr>ms_rest := drop n (ms_rest x),
       ms_prev := (if n = 0 then ms_prev x else Some (ms_rest x ! (n - 1)))\<rparr>"

lemma skip_0 [simp]: "skip 0 x = x"
  by (simp add: skip_def)

lemma skip_Suc:
  "ms_rest x = a # as \<Longrightarrow> skip (Suc n) x = skip n (x\<lparr>ms_rest := as, ms_prev := Some a\<rparr>)"
  by (cases n) (simp_all add: skip_def)

lemma any_char: "class_matches ic False [CI_space, CI_nonspace] a"
  by (simp add: class_matches_def)

lemma lazy_interior:
  assumes "matcher ic ml (Star False (Cls False [CI_space, CI_nonspace])) x k = Some z"
  shows "\<exists>n \<le> length (ms_rest x). k (skip n x) = Some z \<and> (\<forall>j < n. k (skip j x) = None)"
  using assms
proof (induction "ms_rest x" arbitrary: x)
  case Nil
  then show ?case
    by (cases "k x") (auto simp: read_char_def)
next
  case (Cons a as)
  show ?case
  proof (cases "k x")
    case (Some z')
    with Cons.prems have "z' = z" by simp
    with Some show ?thesis by (intro exI [of _ 0]) simp
  next
    case None
    let ?y = "x\<lparr>ms_rest := as, ms_prev := Some a\<rparr>"
    have rest: "ms_rest x = a # as" using Cons.hyps(2) by simp
    from Cons.prems None rest
    have "matcher ic ml (Star False (Cls False [CI_space, CI_nonspace])) ?y k = Some z"
      by (simp add: read_char_def any_char)
    moreover have "as = ms_rest ?y" by simp
    ultimately obtain n where n: "n \<le> length (ms_rest ?y)" "k (skip n ?y) = Some z"
      "\<forall>j < n. k (skip j ?y) = None"
      using Cons.hyps(1) [of ?y] by blast
    have "\<forall>j < Suc n. k (skip j x) = None"
    proof (intro allI impI)
      fix j assume "j < Suc n"
      then show "k (skip j x) = None"
        using None n(3) skip_Suc [OF rest] by (cases j) simp_all
    qed
    with n(1,2) rest skip_Suc [OF rest, of n] show ?thesis
      by (intro exI [of _ "Suc n"]) simp
  qed
qed

lemma take2_drop_append:
  assumes "j < length a"
  shows "take 2 (drop j (a @ [p, q] @ c)) = take 2 (drop j (a @ [p, q]))"
proof -
  from assms obtain h t where "drop j a = h # t" by (cases "drop j a") auto
  with assms show ?thesis by (cases t) (simp_all add: numeral_2_eq_2)
qed

inductive_cases paths_ClsE: "paths ic ml (Cls b its) x y"
inductive_cases paths_BolE: "paths ic ml Bol x y"

lemma block_end_found:
  assumes "matcher False ml (Seq (Group 4 (Seq (Chr CHR ''*'') (Seq (Chr CHR ''/'') Empty))) Empty) v Some = Some z"
  shows "ms_rest v = ''*/'' @ ms_rest z \<and> ms_caps z = (ms_caps v)(4 \<mapsto> ''*/'')"
  using assms
  by (auto simp: read_char_def consumed_def split: list.splits if_splits)

lemma block_end_not_found:
  assumes "matcher False ml (Seq (Group 4 (Seq (Chr CHR ''*'') (Seq (Chr CHR ''/'') Empty))) Empty) v Some = None"
  shows "take 2 (ms_rest v) \<noteq> ''*/''"
  using assms
  by (auto simp: read_char_def split: list.splits if_splits)

lemma block_start_path:
  assumes "paths False ml
      (Plus True (Group 2 (Seq (Chr CHR ''/'') (Seq (Chr CHR ''*'') (Seq (Cls False [CI_space]) Empty))))) y u"
  shows "\<exists>w more. ms_rest y = ''/*'' @ [w] @ more @ ms_rest u \<and> is_white_space w"
proof -
  let ?body = "Seq (Chr CHR ''/'') (Seq (Chr CHR ''*'') (Seq (Cls False [CI_space]) Empty))"
  from assms obtain y2 where y2: "paths False ml (Group 2 ?body) (clear_captures (Group 2 ?body) y) y2"
    "paths False ml (Star True (Group 2 ?body)) y2 u"
    by (auto elim: paths_PlusE)
  from y2(1) obtain v where v: "paths False ml ?body (clear_captures (Group 2 ?body) y) v"
    "ms_rest y2 = ms_rest v"
    by (auto elim: paths_GroupE)
  from v(1) obtain a b c where "paths False ml (Chr CHR ''/'') (clear_captures (Group 2 ?body) y) a"
    "paths False ml (Chr CHR ''*'') a b" "paths False ml (Cls False [CI_space]) b c"
    "paths False ml Empty c v"
    by (auto elim!: paths_SeqE)
  then obtain w where "ms_rest y = ''/*'' @ [w] @ ms_rest v" "is_white_space w"
    by (auto elim!: paths_ChrE paths_ClsE paths_EmptyE simp: class_matches_def)
  moreover from paths_suffix [OF y2(2)] obtain more where "ms_rest y2 = more @ ms_rest u" by auto
  ultimately have "ms_rest y = ''/*'' @ [w] @ more @ ms_rest u \<and> is_white_space w"
    using v(2) by simp
  then show ?thesis by blast
qed

lemma block_lead_path:
  assumes "paths False True
      (Group 1 (Alt (Seq Bol Empty) (Seq (Cls False [CI_char CHR '' '', CI_char CHR 0x09]) Empty))) x y"
  shows "\<exists>g1. ms_rest x = g1 @ ms_rest y
     \<and> (g1 = [] \<and> (ms_prev x = None \<or> (\<exists>p. ms_prev x = Some p \<and> is_line_terminator p))
         \<or> g1 = '' '' \<or> g1 = [CHR 0x09])"
proof -
  from assms obtain v where v:
    "paths False True (Alt (Seq Bol Empty) (Seq (Cls False [CI_char CHR '' '', CI_char CHR 0x09]) Empty)) x v"
    "ms_rest y = ms_rest v"
    by (auto elim: paths_GroupE)
  from v(1) have "paths False True (Seq Bol Empty) x v
      \<or> paths False True (Seq (Cls False [CI_char CHR '' '', CI_char CHR 0x09]) Empty) x v"
    by (auto elim: paths_AltE)
  then show ?thesis
  proof
    assume "paths False True (Seq Bol Empty) x v"
    then have "ms_rest x = [] @ ms_rest v"
      "ms_prev x = None \<or> (\<exists>p. ms_prev x = Some p \<and> is_line_terminator p)"
      by (auto elim!: paths_SeqE paths_BolE paths_EmptyE)
    with v(2) show ?thesis by (intro exI [of _ "[]"]) simp
  next
    assume "paths False True (Seq (Cls False [CI_char CHR '' '', CI_char CHR 0x09]) Empty) x v"
    then obtain a where "ms_rest x = [a] @ ms_rest v" "a = CHR '' '' \<or> a = CHR 0x09"
      by (auto elim!: paths_SeqE paths_ClsE paths_EmptyE simp: class_matches_def)
    with v(2) show ?thesis by (intro exI [of _ "[a]"]) auto
  qed
qed

text \<open>What a region of the \<^verbatim>\<open>/* */\<close> block pattern looks like, in any text: it begins at
  the start of a line or with a blank or a tab, then comes the block start and a white
  space character (perhaps more of these), and it ends with the first \<^verbatim>\<open>*/\<close> after
  that.\<close>

definition block_region :: "string \<Rightarrow> rmatch \<Rightarrow> bool" where
  "block_region s m =
     (\<exists>g1 w more interior.
        m_text m = g1 @ ''/*'' @ [w] @ more @ interior @ ''*/''
      \<and> is_white_space w
      \<and> (g1 = [] \<and> (m_index m = 0 \<or> is_line_terminator (s ! (m_index m - 1)))
          \<or> g1 = '' '' \<or> g1 = [CHR 0x09])
      \<and> capture m 3 = Some interior \<and> capture m 4 = Some ''*/''
      \<and> (\<forall>j < length interior. take 2 (drop j (interior @ ''*/'')) \<noteq> ''*/''))"

lemma block_region_shape:
  assumes "exec slash_star_blocks s i = Some m"
  shows "block_region s m"
proof -
  let ?x = "start_state s (m_index m)"
  let ?G1 = "Group 1 (Alt (Seq Bol Empty) (Seq (Cls False [CI_char CHR '' '', CI_char CHR 0x09]) Empty))"
  let ?P2 = "Plus True (Group 2 (Seq (Chr CHR ''/'') (Seq (Chr CHR ''*'') (Seq (Cls False [CI_space]) Empty))))"
  let ?any = "Star False (Cls False [CI_space, CI_nonspace])"
  let ?end = "Seq (Group 4 (Seq (Chr CHR ''*'') (Seq (Chr CHR ''/'') Empty))) Empty"
  from exec_Some [OF assms] obtain z where
    z: "matcher False True (re_tree slash_star_blocks) ?x Some = Some z"
    and whole: "m_text m = consumed ?x z"
    and caps: "m_caps m = map (ms_caps z) [1 ..< Suc 4]"
    and le: "m_index m \<le> length s"
    by (auto simp: slash_star_blocks_def)
  define K where "K u v = matcher False True ?end (v\<lparr>ms_caps := (ms_caps v)(3 \<mapsto> consumed u v)\<rparr>) Some"
    for u v
  have "matcher False True (re_tree slash_star_blocks) ?x Some
      = matcher False True (Seq ?G1 ?P2) ?x (\<lambda>u. matcher False True ?any u (K u))"
    unfolding K_def slash_star_blocks_def
    by (simp only: matcher.simps(1,7,9) RegExp.simps)
  with z obtain u where u: "paths False True (Seq ?G1 ?P2) ?x u"
    "matcher False True ?any u (K u) = Some z"
    using matcher_sound [of False True "Seq ?G1 ?P2" ?x "\<lambda>u. matcher False True ?any u (K u)" z]
    by auto
  from u(1) obtain y where y: "paths False True ?G1 ?x y" "paths False True ?P2 y u"
    by (auto elim: paths_SeqE)
  from block_lead_path [OF y(1)] obtain g1 where g1: "ms_rest ?x = g1 @ ms_rest y"
    "g1 = [] \<and> (ms_prev ?x = None \<or> (\<exists>p. ms_prev ?x = Some p \<and> is_line_terminator p))
       \<or> g1 = '' '' \<or> g1 = [CHR 0x09]"
    by blast
  from block_start_path [OF y(2)] obtain w more where w: "ms_rest y = ''/*'' @ [w] @ more @ ms_rest u"
    "is_white_space w"
    by blast
  from lazy_interior [OF u(2)] obtain n where n: "n \<le> length (ms_rest u)"
    "K u (skip n u) = Some z" "\<forall>j < n. K u (skip j u) = None"
    by blast
  let ?interior = "take n (ms_rest u)"
  have len: "length ?interior = n" using n(1) by simp
  from block_end_found [OF n(2) [unfolded K_def]]
  have e: "drop n (ms_rest u) = ''*/'' @ ms_rest z"
    "ms_caps z = ((ms_caps (skip n u))(3 \<mapsto> consumed u (skip n u)))(4 \<mapsto> ''*/'')"
    by (simp_all add: skip_def)
  have split: "ms_rest u = ?interior @ ''*/'' @ ms_rest z"
    using e(1) append_take_drop_id [of n "ms_rest u"] by simp
  have "consumed u (skip n u) = ?interior"
    using n(1) by (simp add: consumed_def skip_def)
  with e(2) have c: "ms_caps z 3 = Some ?interior" "ms_caps z 4 = Some ''*/''"
    by simp_all
  have "[1 ..< Suc 4] = [1, 2, 3, 4::nat]" by (simp add: upt_rec)
  with caps c have cap: "capture m 3 = Some ?interior" "capture m 4 = Some ''*/''"
    by (simp_all add: capture_def)
  have first: "\<forall>j < length ?interior. take 2 (drop j (?interior @ ''*/'')) \<noteq> ''*/''"
  proof (intro allI impI)
    fix j assume j: "j < length ?interior"
    with len n(3) have "K u (skip j u) = None" by simp
    from block_end_not_found [OF this [unfolded K_def]]
    have "take 2 (drop j (ms_rest u)) \<noteq> ''*/''" by (simp add: skip_def)
    moreover have "take 2 (drop j (ms_rest u)) = take 2 (drop j (?interior @ ''*/''))"
      using take2_drop_append [OF j, of "CHR ''*''" "CHR ''/''" "ms_rest z"]
      by (subst split) simp
    ultimately show "take 2 (drop j (?interior @ ''*/'')) \<noteq> ''*/''" by simp
  qed
  have "ms_rest ?x = (g1 @ ''/*'' @ [w] @ more @ ?interior @ ''*/'') @ ms_rest z"
    using g1(1) w(1) split by simp
  from consumed_append [OF this] whole
  have parts: "m_text m = g1 @ ''/*'' @ [w] @ more @ ?interior @ ''*/''" by simp
  have lead: "g1 = [] \<and> (m_index m = 0 \<or> is_line_terminator (s ! (m_index m - 1)))
          \<or> g1 = '' '' \<or> g1 = [CHR 0x09]"
    using g1(2) le by (auto simp: start_state_def split: if_splits)
  from parts w(2) lead cap first show ?thesis
    unfolding block_region_def by blast
qed

lemma matches_return:
  assumes "\<And>j m. exec re s j = Some m \<Longrightarrow> m_text m \<noteq> []"
  shows "\<exists>ms. matches re s i = Inr ms"
proof (induction "length s - i" arbitrary: i rule: less_induct)
  case less
  show ?case
  proof (cases "exec re s i")
    case None
    then have "matches re s i = Inr []" by (simp add: matches_Nil)
    then show ?thesis by blast
  next
    case (Some m)
    from assms [OF Some] exec_bounds [OF Some] have b: "i < m_end m" "m_end m \<le> length s"
      by (cases "m_text m"; simp add: m_end_def)+
    then have "length s - m_end m < length s - i" by arith
    from less [OF this] obtain ms where "matches re s (m_end m) = Inr ms" by blast
    with Some b(1) have "matches re s i = Inr (m # ms)" by (simp add: matches_Cons)
    then show ?thesis by blast
  qed
qed

lemma block_region_not_empty: "block_region s m \<Longrightarrow> m_text m \<noteq> []"
  by (auto simp: block_region_def)

lemma two_regions_first:
  "exec slash_star_blocks (''/* TODO a */ /* TODO b */'' @ rest) 0
     = Some \<lparr>m_index = 0, m_text = ''/* TODO a */'',
              m_caps = [Some [], Some ''/* '', Some ''TODO a '', Some ''*/'']\<rparr>"
  by (simp add: slash_star_blocks_def exec.simps run_pattern cong: matcher_cong read_char_cong)

lemma two_regions_second:
  "exec slash_star_blocks (''/* TODO a */ /* TODO b */'' @ rest) 12
     = Some \<lparr>m_index = 12, m_text = '' /* TODO b */'',
              m_caps = [Some '' '', Some ''/* '', Some ''TODO b '', Some ''*/'']\<rparr>"
  by (simp add: slash_star_blocks_def exec.simps run_pattern cong: matcher_cong read_char_cong)

lemma two_regions_then_more:
  "\<exists>ms. matches slash_star_blocks (''/* TODO a */ /* TODO b */'' @ rest) 0
     = Inr (\<lparr>m_index = 0, m_text = ''/* TODO a */'',
                  m_caps = [Some [], Some ''/* '', Some ''TODO a '', Some ''*/'']\<rparr> #
            \<lparr>m_index = 12, m_text = '' /* TODO b */'',
                  m_caps = [Some '' '', Some ''/* '', Some ''TODO b '', Some ''*/'']\<rparr> # ms)"
proof -
  let ?t = "''/* TODO a */ /* TODO b */'' @ rest"
  have "\<exists>ms. matches slash_star_blocks ?t 25 = Inr ms"
    by (rule matches_return) (rule block_region_not_empty [OF block_region_shape])
  then obtain ms where "matches slash_star_blocks ?t 25 = Inr ms"
    by blast
  with two_regions_second [of rest]
  have "matches slash_star_blocks ?t 12
      = Inr (\<lparr>m_index = 12, m_text = '' /* TODO b */'',
                  m_caps = [Some '' '', Some ''/* '', Some ''TODO b '', Some ''*/'']\<rparr> # ms)"
    by (simp add: matches_Cons m_end_def)
  moreover have e1: "m_end \<lparr>m_index = 0, m_text = ''/* TODO a */'',
                  m_caps = [Some [], Some ''/* '', Some ''TODO a '', Some ''*/'']\<rparr> = 12"
    by (simp add: m_end_def)
  moreover note two_regions_first [of rest]
  ultimately have "matches slash_star_blocks ?t 0
      = Inr (\<lparr>m_index = 0, m_text = ''/* TODO a */'',
                  m_caps = [Some [], Some ''/* '', Some ''TODO a '', Some ''*/'']\<rparr> #
             \<lparr>m_index = 12, m_text = '' /* TODO b */'',
                  m_caps = [Some '' '', Some ''/* '', Some ''TODO b '', Some ''*/'']\<rparr> # ms)"
    by (simp add: matches_Cons [of _ _ 0] e1)
  then show ?thesis by (rule exI)
qed

lemma block_regions_everywhere:
  "\<exists>ms. matches slash_star_blocks s i = Inr ms
     \<and> sorted_wrt (\<lambda>a b. m_end a \<le> m_index b) ms
     \<and> (\<forall>m \<in> set ms. i \<le> m_index m \<and> m_end m \<le> length s \<and> block_region s m)"
proof -
  have "\<exists>ms. matches slash_star_blocks s i = Inr ms"
    by (rule matches_return) (rule block_region_not_empty [OF block_region_shape])
  then obtain ms where ms: "matches slash_star_blocks s i = Inr ms"
    by blast
  have "block_region s m" if "m \<in> set ms" for m
    using matches_exec [OF ms that] block_region_shape by blast
  with ms matches_in_order [OF ms] show ?thesis by blast
qed

text \<open>
  Claim C6, amended. With the block delimiters \<^verbatim>\<open>/*\<close> and \<^verbatim>\<open>*/\<close>: in the text
  \<^verbatim>\<open>/* TODO a */ /* TODO b */\<close> the block pattern finds exactly two regions, the first from
  offset 0 to 12 and the second from 12 to 25 (it starts with the blank before the
  comment), not one that spans both; and in every text that begins with these two
  comments they are the first two regions. In every text, from every start, the scan
  of the pattern returns; the regions lie one after the other, each ending before or
  where the next begins; and each region begins at the start of a line or with a blank or
  a tab, followed by the block start and a white space character, and ends with the
  first \<^verbatim>\<open>*/\<close> after these (the interior is not greedy). The block scan yields what its
  inner loop yields on these regions, in that order.
\<close>

theorem adjacent_block_comments:
  assumes "blockCommentStart s = escapeRegExp ''/*''" "blockCommentEnd s = escapeRegExp ''*/''"
  shows "\<exists>regEx. RegExp_new (block_regexString s) ''gm'' = Some regEx
     \<and> matches regEx ''/* TODO a */ /* TODO b */'' 0
         = Inr [\<lparr>m_index = 0, m_text = ''/* TODO a */'',
                  m_caps = [Some [], Some ''/* '', Some ''TODO a '', Some ''*/'']\<rparr>,
                \<lparr>m_index = 12, m_text = '' /* TODO b */'',
                  m_caps = [Some '' '', Some ''/* '', Some ''TODO b '', Some ''*/'']\<rparr>]
     \<and> (\<forall>rest. \<exists>ms. matches regEx (''/* TODO a */ /* TODO b */'' @ rest) 0
         = Inr (\<lparr>m_index = 0, m_text = ''/* TODO a */'',
                  m_caps = [Some [], Some ''/* '', Some ''TODO a '', Some ''*/'']\<rparr> #
                \<lparr>m_index = 12, m_text = '' /* TODO b */'',
                  m_caps = [Some '' '', Some ''/* '', Some ''TODO b '', Some ''*/'']\<rparr> # ms))
     \<and> (\<forall>t i. \<exists>ms. matches regEx t i = Inr ms
           \<and> sorted_wrt (\<lambda>a b. m_end a \<le> m_index b) ms
           \<and> (\<forall>m \<in> set ms. i \<le> m_index m \<and> m_end m \<le> length t \<and> block_region t m))
     \<and> (\<forall>input commentRegEx ms.
           highlightMultilineComments s \<longrightarrow>
           RegExp_new (block_commentMatchString input) ''igm'' = Some commentRegEx \<longrightarrow>
           matches regEx (getText (document (activeEditor input)) (range_opt input)) 0 = Inr ms \<longrightarrow>
           findBlockComments input s
             = collect (comment_block_lines input commentRegEx (range_offset input)) ms)"
proof (rule exI [of _ slash_star_blocks], intro conjI allI impI)
  show re: "RegExp_new (block_regexString s) ''gm'' = Some slash_star_blocks"
    using assms by (rule block_regex_slash_star)
  show "matches slash_star_blocks ''/* TODO a */ /* TODO b */'' 0
         = Inr [\<lparr>m_index = 0, m_text = ''/* TODO a */'',
                  m_caps = [Some [], Some ''/* '', Some ''TODO a '', Some ''*/'']\<rparr>,
                \<lparr>m_index = 12, m_text = '' /* TODO b */'',
                  m_caps = [Some '' '', Some ''/* '', Some ''TODO b '', Some ''*/'']\<rparr>]"
    by (rule two_block_regions)
  show "\<exists>ms. matches slash_star_blocks (''/* TODO a */ /* TODO b */'' @ rest) 0
         = Inr (\<lparr>m_index = 0, m_text = ''/* TODO a */'',
                  m_caps = [Some [], Some ''/* '', Some ''TODO a '', Some ''*/'']\<rparr> #
                \<lparr>m_index = 12, m_text = '' /* TODO b */'',
                  m_caps = [Some '' '', Some ''/* '', Some ''TODO b '', Some ''*/'']\<rparr> # ms)" for rest
    by (rule two_regions_then_more)
  show "\<exists>ms. matches slash_star_blocks t i = Inr ms
           \<and> sorted_wrt (\<lambda>a b. m_end a \<le> m_index b) ms
           \<and> (\<forall>m \<in> set ms. i \<le> m_index m \<and> m_end m \<le> length t \<and> block_region t m)" for t i
    by (rule block_regions_everywhere)
  show "findBlockComments input s
             = collect (comment_block_lines input commentRegEx (range_offset input)) ms"
    if "highlightMultilineComments s"
      "RegExp_new (block_commentMatchString input) ''igm'' = Some commentRegEx"
      "matches slash_star_blocks (getText (document (activeEditor input)) (range_opt input)) 0 = Inr ms"
    for input commentRegEx ms
    using that(1) re that(2,3) by (rule findBlockComments_collect)
qed

theorem adjacent_block_comments_witness:
  "RegExp_new (block_regexString (fst (processState (example_input ''javascript'' ''/* TODO a */ /* TODO b */''))))
       ''gm'' = Some slash_star_blocks
   \<and> matches slash_star_blocks ''/* TODO a */ /* TODO b */'' 0
       = Inr [\<lparr>m_index = 0, m_text = ''/* TODO a */'',
                  m_caps = [Some [], Some ''/* '', Some ''TODO a '', Some ''*/'']\<rparr>,
              \<lparr>m_index = 12, m_text = '' /* TODO b */'',
                  m_caps = [Some '' '', Some ''/* '', Some ''TODO b '', Some ''*/'']\<rparr>]
   \<and> sorted_wrt (\<lambda>a b. m_end a \<le> m_index b)
        [\<lparr>m_index = 0, m_text = ''/* TODO a */'',
                  m_caps = [Some [], Some ''/* '', Some ''TODO a '', Some ''*/'']\<rparr>,
         \<lparr>m_index = 12, m_text = '' /* TODO b */'',
                  m_caps = [Some '' '', Some ''/* '', Some ''TODO b '', Some ''*/'']\<rparr>]
   \<and> block_region ''/* TODO a */ /* TODO b */''
        \<lparr>m_index = 0, m_text = ''/* TODO a */'',
                  m_caps = [Some [], Some ''/* '', Some ''TODO a '', Some ''*/'']\<rparr>
   \<and> block_region ''/* TODO a */ /* TODO b */''
        \<lparr>m_index = 12, m_text = '' /* TODO b */'',
                  m_caps = [Some '' '', Some ''/* '', Some ''TODO b '', Some ''*/'']\<rparr>
   \<and> findBlockComments (example_input ''javascript'' ''/* TODO a */ /* TODO b */'')
        (fst (processState (example_input ''javascript'' ''/* TODO a */ /* TODO b */''))) = Inr []"
proof -
  let ?input = "example_input ''javascript'' ''/* TODO a */ /* TODO b */''"
  let ?s = "fst (processState ?input)"
  let ?ms = "[\<lparr>m_index = 0, m_text = ''/* TODO a */'',
                  m_caps = [Some [], Some ''/* '', Some ''TODO a '', Some ''*/'']\<rparr>,
              \<lparr>m_index = 12, m_text = '' /* TODO b */'',
                  m_caps = [Some '' '', Some ''/* '', Some ''TODO b '', Some ''*/'']\<rparr>]"
  have a: "blockCommentStart ?s = escapeRegExp ''/*''" "blockCommentEnd ?s = escapeRegExp ''*/''"
    "highlightMultilineComments ?s"
    by code_simp+
  from adjacent_block_comments [OF a(1,2)] obtain regEx where
    r: "RegExp_new (block_regexString ?s) ''gm'' = Some regEx"
      "matches regEx ''/* TODO a */ /* TODO b */'' 0 = Inr ?ms"
    and every: "\<And>t i. \<exists>ms. matches regEx t i = Inr ms
           \<and> sorted_wrt (\<lambda>a b. m_end a \<le> m_index b) ms
           \<and> (\<forall>m \<in> set ms. i \<le> m_index m \<and> m_end m \<le> length t \<and> block_region t m)"
    and scan: "\<And>input commentRegEx ms. highlightMultilineComments ?s \<Longrightarrow>
           RegExp_new (block_commentMatchString input) ''igm'' = Some commentRegEx \<Longrightarrow>
           matches regEx (getText (document (activeEditor input)) (range_opt input)) 0 = Inr ms \<Longrightarrow>
           findBlockComments input ?s
             = collect (comment_block_lines input commentRegEx (range_offset input)) ms"
    by blast
  from r(1) block_regex_slash_star [OF a(1,2)] have re: "regEx = slash_star_blocks" by simp
  from every [of "''/* TODO a */ /* TODO b */''" 0] r(2)
  have ord: "sorted_wrt (\<lambda>a b. m_end a \<le> m_index b) ?ms"
    and shape: "\<forall>m \<in> set ?ms. block_region ''/* TODO a */ /* TODO b */'' m"
    by auto
  have whole: "getText (document (activeEditor ?input)) (range_opt ?input) = ''/* TODO a */ /* TODO b */''"
    by (simp add: example_document getText_def)
  have cre: "RegExp_new (block_commentMatchString ?input) ''igm''
      = Some (the (RegExp_new (block_commentMatchString ?input) ''igm''))"
    by (simp add: block_line_regex)
  have m: "matches regEx (getText (document (activeEditor ?input)) (range_opt ?input)) 0 = Inr ?ms"
    using r(2) by (simp only: whole)
  have "findBlockComments ?input ?s
      = collect (comment_block_lines ?input
          (the (RegExp_new (block_commentMatchString ?input) ''igm'')) (range_offset ?input)) ?ms"
    by (rule scan [OF a(3) cre m])
  also have "\<dots> = Inr []"
    unfolding block_line_regex option.sel comment_block_lines_def
    by (simp add: exec.simps exec_loop.simps run_pattern range_offset_def example_document
        example_tags push_decoration_def find_tag_def positionAt_def Range_new_def isBefore_def
        cong: matcher_cong read_char_cong)
  finally have none: "findBlockComments ?input ?s = Inr []" .
  from shape have "block_region ''/* TODO a */ /* TODO b */'' \<lparr>m_index = 0, m_text = ''/* TODO a */'',
                  m_caps = [Some [], Some ''/* '', Some ''TODO a '', Some ''*/'']\<rparr>"
    "block_region ''/* TODO a */ /* TODO b */'' \<lparr>m_index = 12, m_text = '' /* TODO b */'',
                  m_caps = [Some '' '', Some ''/* '', Some ''TODO b '', Some ''*/'']\<rparr>"
    by simp_all
  with r ord none show ?thesis
    unfolding re by (intro conjI)
qed

text \<open>The same two comments after a letter: the first comment is neither at the start of
  a line nor after a blank, and only the second is found.\<close>

theorem adjacent_block_comments_counterexample:
  "RegExp_new (block_regexString (fst (processState (example_input ''javascript'' ''x/* TODO a */ /* TODO b */''))))
       ''gm'' = Some slash_star_blocks
   \<and> highlightMultilineComments (fst (processState (example_input ''javascript'' ''x/* TODO a */ /* TODO b */'')))
   \<and> matches slash_star_blocks ''x/* TODO a */ /* TODO b */'' 0
       = Inr [\<lparr>m_index = 13, m_text = '' /* TODO b */'',
                m_caps = [Some '' '', Some ''/* '', Some ''TODO b '', Some ''*/'']\<rparr>]"
proof -
  let ?s = "fst (processState (example_input ''javascript'' ''x/* TODO a */ /* TODO b */''))"
  have a: "blockCommentStart ?s = escapeRegExp ''/*''" "blockCommentEnd ?s = escapeRegExp ''*/''"
    "highlightMultilineComments ?s"
    by code_simp+
  have "matches slash_star_blocks ''x/* TODO a */ /* TODO b */'' 0
       = Inr [\<lparr>m_index = 13, m_text = '' /* TODO b */'',
                m_caps = [Some '' '', Some ''/* '', Some ''TODO b '', Some ''*/'']\<rparr>]"
    by (simp add: matches_def slash_star_blocks_def exec.simps exec_loop.simps run_pattern
        cong: matcher_cong read_char_cong)
  with block_regex_slash_star [OF a(1,2)] a(3) show ?thesis by (intro conjI)
qed


section \<open>The single-line scan of any document\<close>









subsection \<open>Every tagged comment is found\<close>











section \<open>A language with block comments only: the scan\<close>





end
